theory Spec2Isabelle
  imports Main "HOL-Library.Signed_Division" "HOL-Library.Log_Nat"
begin

section \<open>Numbers, strings and errors of the platform\<close>

text \<open>
  The library \<open>date-string-fns\<close> (file \<open>src/index.ts\<close>) works on JavaScript numbers and
  strings. Every number that reaches the arithmetic of the library is integer-valued: the
  fields of a date come from digit groups and a delta field is used only after
  \<open>Number.isSafeInteger\<close> accepted it. Such a number is modelled by an \<open>int\<close>. A sum or
  difference of two of them is exact up to \<open>2^53\<close> in magnitude and rounded to the nearest
  double beyond, ties to the even significand; \<open>fl\<close> is that rounding and \<open>js_add\<close>,
  \<open>js_sub\<close> are \<open>+\<close> and \<open>-\<close> of the platform. A string is a \<open>string\<close>; a character that
  is no digit and no dash stands for every code unit that is neither.
\<close>

datatype error =
    MalformedDateString   \<comment> \<open>\<open>throw new Error(`Invalid date: ...`)\<close> in \<open>_toDMY\<close>\<close>
  | InvalidMonth          \<comment> \<open>\<open>throw new Error(`Invalid month number: ...`)\<close>\<close>
  | InvalidYear           \<comment> \<open>\<open>throw new Error(`Invalid year: ...`)\<close>\<close>
  | NonIntegerDelta       \<comment> \<open>\<open>throw new Error('addDate: ... increment must be an integer value')\<close>\<close>

text \<open>
  A value of type \<open>number\<close> handed in from outside: an integer-valued double, or
  anything else (a fraction, \<open>NaN\<close>, an infinity).
\<close>

datatype jsnum = Integral int | NonIntegral

text \<open>A value of type \<open>unknown\<close>: a string, or a value whose \<open>typeof\<close> is not \<open>'string'\<close>.\<close>

datatype jsvalue = JString string | JOther

definition fl :: "int \<Rightarrow> int" where
  "fl x = (if \<bar>x\<bar> \<le> 2 ^ 53 then x
           else let a = \<bar>x\<bar>;
                    u = 2 ^ nat (bitlen a - 53);
                    q = a div u;
                    r = a mod u;
                    q' = (if 2 * r < u \<or> (2 * r = u \<and> even q) then q else q + 1)
                in sgn x * (u * q'))"

definition js_add :: "int \<Rightarrow> int \<Rightarrow> int" where
  "js_add a b = fl (a + b)"

definition js_sub :: "int \<Rightarrow> int \<Rightarrow> int" where
  "js_sub a b = fl (a - b)"

text \<open>\<open>Number.isSafeInteger\<close>: an integer of magnitude at most \<open>2^53 - 1\<close>.\<close>

fun isSafeInteger :: "jsnum \<Rightarrow> bool" where
  "isSafeInteger (Integral i) = (\<bar>i\<bar> \<le> 2 ^ 53 - 1)"
| "isSafeInteger NonIntegral = False"

subsection \<open>Digits\<close>

definition is_digit :: "char \<Rightarrow> bool" where
  "is_digit c = (48 \<le> (of_char c :: nat) \<and> (of_char c :: nat) \<le> 57)"

definition digit_val :: "char \<Rightarrow> nat" where
  "digit_val c = of_char c - 48"

definition digit_char :: "nat \<Rightarrow> char" where
  "digit_char n = char_of (48 + n)"

text \<open>\<open>Number(s)\<close> on a string of decimal digits: the digits read from the left.\<close>

definition dec :: "string \<Rightarrow> nat" where
  "dec s = foldl (\<lambda>a c. 10 * a + digit_val c) 0 s"

definition Number_of :: "string \<Rightarrow> int" where
  "Number_of s = int (dec s)"

text \<open>
  \<open>n.toString()\<close> on an integer-valued number below \<open>10^21\<close> in magnitude (beyond it the
  platform switches to the exponent notation; no number of the library gets that far).
\<close>

function digits_of :: "int \<Rightarrow> string" where
  "digits_of n = (if n < 10 then [digit_char (nat n)]
                  else digits_of (n div 10) @ [digit_char (nat (n mod 10))])"
  by pat_completeness auto
termination
  by (relation "measure nat") auto

declare digits_of.simps [simp del]

definition toString :: "int \<Rightarrow> string" where
  "toString i = (if i < 0 then CHR ''-'' # digits_of (- i) else digits_of i)"

definition padStart :: "string \<Rightarrow> nat \<Rightarrow> char \<Rightarrow> string" where
  "padStart s n c = replicate (n - length s) c @ s"

section \<open>The codec\<close>

definition pad :: "int \<Rightarrow> nat \<Rightarrow> string" where
  "pad n digits = padStart (toString n) digits CHR ''0''"

definition buildIsoDateString :: "int \<Rightarrow> int \<Rightarrow> int \<Rightarrow> string" where
  "buildIsoDateString day1To31 month1to12 yr =
     pad yr 4 @ ''-'' @ pad month1to12 2 @ ''-'' @ pad day1To31 2"

text \<open>
  The pattern \<open>/^(\d\d\d\d)-(\d\d)-(\d\d)$/\<close>: the three captured groups of a string that
  matches, \<open>None\<close> for a string that does not.
\<close>

definition match_iso :: "string \<Rightarrow> (string \<times> string \<times> string) option" where
  "match_iso s =
     (if length s = 10 \<and> list_all is_digit (take 4 s) \<and> s ! 4 = CHR ''-''
         \<and> list_all is_digit (take 2 (drop 5 s)) \<and> s ! 7 = CHR ''-''
         \<and> list_all is_digit (drop 8 s)
      then Some (take 4 s, take 2 (drop 5 s), drop 8 s) else None)"

record dmy =
  year :: int
  month :: int
  day :: int

text \<open>\<open>_toDMY\<close>, which the exported \<open>toDMY\<close> returns unchanged.\<close>

definition toDMY :: "string \<Rightarrow> error + dmy" where
  "toDMY date =
     (case match_iso date of
        None \<Rightarrow> Inl MalformedDateString
      | Some (yyyy, mm, dd) \<Rightarrow>
          Inr \<lparr>year = Number_of yyyy, month = Number_of mm, day = Number_of dd\<rparr>)"

definition fromDMY :: "dmy \<Rightarrow> string" where
  "fromDMY v = buildIsoDateString (day v) (month v) (year v)"

section \<open>Calendar rules and the validator\<close>

text \<open>\<open>%\<close> is the remainder with the sign of the dividend, \<open>smod\<close> on \<open>int\<close>.\<close>

definition isLeapYear :: "int \<Rightarrow> bool" where
  "isLeapYear yr = (yr smod 4 = 0 \<and> (yr smod 100 \<noteq> 0 \<or> yr smod 400 = 0))"

definition getMaxDayInMonth :: "int \<Rightarrow> int \<Rightarrow> error + int" where
  "getMaxDayInMonth month1to12 yr =
     (if month1to12 < 1 \<or> month1to12 > 12 then Inl InvalidMonth
      else if yr < 1 \<or> yr > 9999 then Inl InvalidYear
      else Inr ([0, 31, if isLeapYear yr then 29 else 28, 31, 30, 31, 30, 31, 31, 30, 31, 30, 31]
                 ! nat month1to12))"

text \<open>
  \<open>isValidDate\<close> is private to the module; its only caller hands it the integers of three
  digit groups. The default \<open>yearRange\<close> is the one ever used.
\<close>

definition isValidDate :: "int \<Rightarrow> int \<Rightarrow> int \<Rightarrow> error + bool" where
  "isValidDate d m y =
     (if y < 1 \<or> y > 9999 then Inr False
      else if m < 1 \<or> m > 12 then Inr False
      else if d < 1 \<or> d > 31 then Inr False
      else case getMaxDayInMonth m y of Inl e \<Rightarrow> Inl e | Inr md \<Rightarrow> Inr (d \<le> md))"

definition isValidIsoDateString :: "jsvalue \<Rightarrow> error + bool" where
  "isValidIsoDateString v =
     (case v of
        JOther \<Rightarrow> Inr False
      | JString s \<Rightarrow>
          (case match_iso s of
             None \<Rightarrow> Inr False
           | Some (y, m, d) \<Rightarrow> isValidDate (Number_of d) (Number_of m) (Number_of y)))"

section \<open>The increment engine\<close>

record increment =
  days :: "jsnum option"
  months :: "jsnum option"
  years :: "jsnum option"

text \<open>
  A field of the delta is \<open>None\<close> when \<open>typeof\<close> of it is not \<open>'number'\<close>. The closure
  \<open>checkMonthRollover\<close> updates the variables \<open>month\<close> and \<open>year\<close> of \<open>addDate\<close>; here it
  takes the three variables as a \<open>dmy\<close> and returns them.
\<close>

definition checkMonthRollover :: "dmy \<Rightarrow> dmy" where
  "checkMonthRollover s =
     (if month s < 1 then s\<lparr>month := js_add (month s) 12, year := js_sub (year s) 1\<rparr>
      else if month s > 12 then s\<lparr>month := js_sub (month s) 12, year := js_add (year s) 1\<rparr>
      else s)"

definition year_step :: "increment \<Rightarrow> dmy \<Rightarrow> error + dmy" where
  "year_step inc s =
     (case years inc of
        None \<Rightarrow> Inr s
      | Some v \<Rightarrow>
          (case v of
             NonIntegral \<Rightarrow> Inl NonIntegerDelta
           | Integral n \<Rightarrow>
               if \<not> isSafeInteger v then Inl NonIntegerDelta
               else Inr (s\<lparr>year := js_add (year s) n\<rparr>)))"

text \<open>
  \<open>Math.trunc(increment.months / 12)\<close> divides doubles first. For a safe integer \<open>n\<close> that
  is no multiple of 12 the quotient lies at least \<open>1/12\<close> from the next integer while its
  rounding error is at most \<open>2^-4\<close>, so the truncation is the integer quotient rounded
  towards zero, \<open>n sdiv 12\<close>.
\<close>

definition month_step :: "bool \<Rightarrow> increment \<Rightarrow> dmy \<Rightarrow> error + dmy" where
  "month_step isLastDayInMonth inc s =
     (case months inc of
        None \<Rightarrow> Inr s
      | Some v \<Rightarrow>
          (case v of
             NonIntegral \<Rightarrow> Inl NonIntegerDelta
           | Integral n \<Rightarrow>
               if \<not> isSafeInteger v then Inl NonIntegerDelta
               else
                 let yearsFromMonths = n sdiv 12;
                     s1 = s\<lparr>year := js_add (year s) yearsFromMonths\<rparr>;
                     s2 = s1\<lparr>month := js_add (month s1) (js_sub n (fl (yearsFromMonths * 12)))\<rparr>;
                     s3 = checkMonthRollover s2
                 in (case getMaxDayInMonth (month s3) (year s3) of
                      Inl e \<Rightarrow> Inl e
                    | Inr md \<Rightarrow>
                        Inr (s3\<lparr>day := (if isLastDayInMonth then md else min (day s3) md)\<rparr>))))"

text \<open>The loop \<open>while (day < 1) { ... }\<close>.\<close>

function back_loop :: "dmy \<Rightarrow> error + dmy" where
  "back_loop s =
     (if day s < 1 then
        let s1 = checkMonthRollover (s\<lparr>month := js_sub (month s) 1\<rparr>)
        in case getMaxDayInMonth (month s1) (year s1) of
             Inl e \<Rightarrow> Inl e
           | Inr md \<Rightarrow> back_loop (s1\<lparr>day := js_add (day s1) md\<rparr>)
      else Inr s)"
  by pat_completeness auto

text \<open>The loop \<open>for (;;) { ... }\<close>.\<close>

function forward_loop :: "dmy \<Rightarrow> error + dmy" where
  "forward_loop s =
     (case getMaxDayInMonth (month s) (year s) of
        Inl e \<Rightarrow> Inl e
      | Inr maxDay \<Rightarrow>
          if day s \<le> maxDay then Inr s
          else forward_loop
                 (checkMonthRollover (s\<lparr>day := js_sub (day s) maxDay,
                                         month := js_add (month s) 1\<rparr>)))"
  by pat_completeness auto

subsection \<open>Rounding is the identity on the numbers of a date\<close>

lemma fl_id: "\<bar>x\<bar> \<le> 2 ^ 53 \<Longrightarrow> fl x = x"
  by (simp add: fl_def)

lemma round_lower:
  fixes a :: int
  assumes "2 ^ 53 < a"
  shows "2 ^ 53 \<le> 2 ^ nat (bitlen a - 53) * (a div 2 ^ nat (bitlen a - 53))"
proof -
  define k where "k = nat (bitlen a)"
  have a0: "0 < a" using assms by (rule less_trans [rotated]) simp
  have b1: "2 ^ (k - 1) \<le> a" and b2: "a < 2 ^ k"
    using bitlen_bounds [OF a0] by (simp_all add: k_def nat_diff_distrib' bitlen_nonneg)
  have "(2::int) ^ 53 < 2 ^ k" using assms b2 by (rule less_trans)
  then have "53 < k" by (simp only: power_strict_increasing_iff one_less_numeral_iff semiring_norm)
  then have k54: "54 \<le> k" by simp
  have kk: "nat (bitlen a - 53) = k - 53" by (simp add: k_def nat_diff_distrib' bitlen_nonneg)
  define u where "u = (2::int) ^ (k - 53)"
  have u0: "0 < u" by (simp add: u_def)
  have e: "k - 53 + 52 = k - 1" using k54 by simp
  have ue: "u * 2 ^ 52 = 2 ^ (k - 1)"
    unfolding u_def power_add [symmetric] e ..
  have "(u * 2 ^ 52) div u \<le> a div u"
    using b1 u0 unfolding ue by (intro zdiv_mono1) simp_all
  then have q: "2 ^ 52 \<le> a div u" using u0 by simp
  have "(2::int) ^ 53 \<le> 2 ^ (k - 1)"
    by (rule power_increasing) (use k54 in simp_all)
  also have "\<dots> = u * 2 ^ 52" by (simp only: ue)
  also have "\<dots> \<le> u * (a div u)" using q u0 by (intro mult_left_mono) simp_all
  finally show ?thesis by (simp only: u_def kk)
qed

lemma fl_minus: "fl (- x) = - fl x"
  by (simp add: fl_def Let_def)

lemma fl_big_pos:
  assumes "2 ^ 53 < x"
  shows "2 ^ 53 \<le> fl x"
proof -
  have x: "sgn x = 1" "\<bar>x\<bar> = x" "(x \<le> 2 ^ 53) = False" using assms by simp_all
  define u where "u = (2::int) ^ nat (bitlen x - 53)"
  define q where "q = x div u"
  have u0: "0 \<le> u" by (simp add: u_def)
  have "2 ^ 53 \<le> u * q" using round_lower [OF assms] by (simp only: u_def q_def)
  moreover have "u * q \<le> u * (q + 1)" using u0 by (intro mult_left_mono) simp_all
  ultimately have "2 ^ 53 \<le> u * (if 2 * (x mod u) < u \<or> (2 * (x mod u) = u \<and> even q) then q else q + 1)"
    by (simp only: split: if_split) (metis order_trans)
  then show ?thesis
    unfolding fl_def Let_def x u_def [symmetric] q_def [symmetric]
    by simp
qed

lemma fl_big_neg:
  assumes "x < - (2 ^ 53)"
  shows "fl x \<le> - (2 ^ 53)"
proof -
  have "2 ^ 53 \<le> fl (- x)" by (rule fl_big_pos) (use assms in simp)
  then show ?thesis by (simp add: fl_minus)
qed

lemma fl_small:
  assumes "\<bar>fl x\<bar> < 2 ^ 53"
  shows "fl x = x"
proof (rule fl_id)
  show "\<bar>x\<bar> \<le> 2 ^ 53"
    using assms fl_big_pos [of x] fl_big_neg [of x] by linarith
qed

lemma fl_range:
  "lo \<le> fl x \<Longrightarrow> fl x \<le> hi \<Longrightarrow> - (2 ^ 53) < lo \<Longrightarrow> hi < 2 ^ 53 \<Longrightarrow> fl x = x"
  by (rule fl_small) linarith

lemma getMax_Inr:
  "getMaxDayInMonth m y = Inr md \<Longrightarrow> 1 \<le> m \<and> m \<le> 12 \<and> 1 \<le> y \<and> y \<le> 9999"
  by (simp add: getMaxDayInMonth_def split: if_splits)

text \<open>
  When the month-length lookup accepts the month and year that \<open>checkMonthRollover\<close>
  left, the rollover moved whole years only: the month index \<open>12 * year + month\<close> is
  the one before.
\<close>

lemma rollover_index:
  assumes "getMaxDayInMonth (month (checkMonthRollover s)) (year (checkMonthRollover s)) = Inr md"
  shows "12 * year (checkMonthRollover s) + month (checkMonthRollover s) = 12 * year s + month s
         \<and> - 11 \<le> month s \<and> month s \<le> 24 \<and> day (checkMonthRollover s) = day s"
proof -
  let ?t = "checkMonthRollover s"
  from getMax_Inr [OF assms]
  have r: "1 \<le> month ?t" "month ?t \<le> 12" "1 \<le> year ?t" "year ?t \<le> 9999" by simp_all
  show ?thesis
  proof (cases "month s < 1")
    case True
    then have t: "month ?t = fl (month s + 12)" "year ?t = fl (year s - 1)"
      by (simp_all add: checkMonthRollover_def js_add_def js_sub_def)
    have "fl (month s + 12) = month s + 12" using r t by (intro fl_range [of 1 _ 12]) simp_all
    moreover have "fl (year s - 1) = year s - 1" using r t by (intro fl_range [of 1 _ 9999]) simp_all
    ultimately show ?thesis using t r True by (simp add: checkMonthRollover_def)
  next
    case False
    show ?thesis
    proof (cases "month s > 12")
      case True
      then have t: "month ?t = fl (month s - 12)" "year ?t = fl (year s + 1)"
        using False by (simp_all add: checkMonthRollover_def js_add_def js_sub_def)
      have "fl (month s - 12) = month s - 12" using r t by (intro fl_range [of 1 _ 12]) simp_all
      moreover have "fl (year s + 1) = year s + 1" using r t by (intro fl_range [of 1 _ 9999]) simp_all
      ultimately show ?thesis using t r True False by (simp add: checkMonthRollover_def)
    next
      case f2: False
      then show ?thesis using False by (simp add: checkMonthRollover_def)
    qed
  qed
qed

lemma back_step:
  assumes "s1 = checkMonthRollover (s\<lparr>month := js_sub (month s) 1\<rparr>)"
    and "getMaxDayInMonth (month s1) (year s1) = Inr md"
  shows "12 * year s1 + month s1 = 12 * year s + month s - 1 \<and> day s1 = day s"
proof -
  let ?s0 = "s\<lparr>month := js_sub (month s) 1\<rparr>"
  from rollover_index [of ?s0 md] assms
  have i: "12 * year s1 + month s1 = 12 * year s + fl (month s - 1)"
    and b: "- 11 \<le> fl (month s - 1)" "fl (month s - 1) \<le> 24" and d: "day s1 = day s"
    by (simp_all add: js_sub_def)
  have "fl (month s - 1) = month s - 1" using b by (intro fl_range [of "-11" _ 24]) simp_all
  then show ?thesis using i d by simp
qed

text \<open>
  Each round of the loop \<open>while (day < 1)\<close> that does not throw moves one month back, and
  the lookup accepts no month before January of the year 1.
\<close>

termination back_loop
proof (relation "measure (\<lambda>s. nat (12 * year s + month s))")
  show "wf (measure (\<lambda>s. nat (12 * year s + month s)))" by simp
next
  fix s s1 :: dmy and md :: int
  assume a: "s1 = checkMonthRollover (s\<lparr>month := js_sub (month s) 1\<rparr>)"
    and g: "getMaxDayInMonth (month s1) (year s1) = Inr md"
  from back_step [OF a g] getMax_Inr [OF g]
  show "(s1\<lparr>day := js_add (day s1) md\<rparr>, s) \<in> measure (\<lambda>s. nat (12 * year s + month s))"
    by simp
qed

text \<open>
  Each round of the loop \<open>for (;;)\<close> that goes on moves one month forward, and the lookup
  accepts no month after December of the year 9999.
\<close>

termination forward_loop
proof (relation "measure (\<lambda>s. nat (120012 - (12 * year s + month s)))")
  show "wf (measure (\<lambda>s. nat (120012 - (12 * year s + month s))))" by simp
next
  fix s :: dmy and maxDay :: int
  assume g: "getMaxDayInMonth (month s) (year s) = Inr maxDay" and "\<not> day s \<le> maxDay"
  let ?s1 = "checkMonthRollover (s\<lparr>day := js_sub (day s) maxDay, month := js_add (month s) 1\<rparr>)"
  from getMax_Inr [OF g]
  have r: "1 \<le> month s" "month s \<le> 12" "1 \<le> year s" "year s \<le> 9999" by simp_all
  have m: "js_add (month s) 1 = month s + 1" "js_add (year s) 1 = year s + 1"
    using r by (simp_all add: js_add_def fl_id)
  have "12 * year ?s1 + month ?s1 = 12 * year s + month s + 1"
    using r by (simp add: checkMonthRollover_def m js_sub_def fl_id)
  then show "(?s1, s) \<in> measure (\<lambda>s. nat (120012 - (12 * year s + month s)))"
    using r by simp
qed

declare back_loop.simps [simp del] forward_loop.simps [simp del]

definition day_step :: "increment \<Rightarrow> dmy \<Rightarrow> error + dmy" where
  "day_step inc s =
     (case days inc of
        None \<Rightarrow> Inr s
      | Some v \<Rightarrow>
          (case v of
             NonIntegral \<Rightarrow> Inl NonIntegerDelta
           | Integral n \<Rightarrow>
               if \<not> isSafeInteger v then Inl NonIntegerDelta
               else
                 (case back_loop (s\<lparr>day := js_add (day s) n\<rparr>) of
                    Inl e \<Rightarrow> Inl e
                  | Inr s1 \<Rightarrow> forward_loop s1)))"

definition addDate :: "string \<Rightarrow> increment \<Rightarrow> error + string" where
  "addDate date inc =
     (case toDMY date of
        Inl e \<Rightarrow> Inl e
      | Inr s0 \<Rightarrow>
          (case getMaxDayInMonth (month s0) (year s0) of
             Inl e \<Rightarrow> Inl e
           | Inr md0 \<Rightarrow>
               (case year_step inc s0 of
                  Inl e \<Rightarrow> Inl e
                | Inr s1 \<Rightarrow>
                    (case month_step (day s0 = md0) inc s1 of
                       Inl e \<Rightarrow> Inl e
                     | Inr s2 \<Rightarrow>
                         (case day_step inc s2 of
                            Inl e \<Rightarrow> Inl e
                          | Inr s3 \<Rightarrow>
                              Inr (buildIsoDateString (day s3) (month s3) (year s3)))))))"

section \<open>Boundary adapters\<close>

text \<open>
  The platform's \<open>Date\<close> is no code of the library. A \<open>Date\<close> is represented by what its
  accessors return, each an integer (a valid \<open>Date\<close>; the accessors of an invalid one
  return \<open>NaN\<close>): the weekday \<open>getDay\<close> from 0 (Sunday) to 6, the day of the month
  \<open>getDate\<close> from 1 to 31, the month \<open>getMonth\<close> from 0 to 11, in local time and in
  UTC.
\<close>

record Date =
  getFullYear :: int
  getMonth :: int
  getDate :: int
  getDay :: int
  getUTCFullYear :: int
  getUTCMonth :: int
  getUTCDate :: int
  getUTCDay :: int

definition platform_Date :: "Date \<Rightarrow> bool" where
  "platform_Date d =
     (0 \<le> getMonth d \<and> getMonth d \<le> 11 \<and> 1 \<le> getDate d \<and> getDate d \<le> 31
      \<and> 0 \<le> getDay d \<and> getDay d \<le> 6
      \<and> 0 \<le> getUTCMonth d \<and> getUTCMonth d \<le> 11 \<and> 1 \<le> getUTCDate d \<and> getUTCDate d \<le> 31
      \<and> 0 \<le> getUTCDay d \<and> getUTCDay d \<le> 6)"

definition fromLocalDate :: "Date \<Rightarrow> string" where
  "fromLocalDate d = buildIsoDateString (getDay d) (js_add (getMonth d) 1) (getFullYear d)"

definition fromUTCDate :: "Date \<Rightarrow> string" where
  "fromUTCDate d = buildIsoDateString (getUTCDay d) (js_add (getUTCMonth d) 1) (getUTCFullYear d)"

text \<open>
  Two days of the calendar as the platform reports them at noon UTC in a zone without
  offset: Friday 31 May 2013 and Sunday 30 June 2013.
\<close>

definition friday_31_may_2013 :: Date where
  "friday_31_may_2013 =
     \<lparr>getFullYear = 2013, getMonth = 4, getDate = 31, getDay = 5,
      getUTCFullYear = 2013, getUTCMonth = 4, getUTCDate = 31, getUTCDay = 5\<rparr>"

definition sunday_30_june_2013 :: Date where
  "sunday_30_june_2013 =
     \<lparr>getFullYear = 2013, getMonth = 5, getDate = 30, getDay = 0,
      getUTCFullYear = 2013, getUTCMonth = 5, getUTCDate = 30, getUTCDay = 0\<rparr>"

section \<open>The month step in the words of the specification\<close>

text \<open>
  The reference algorithm of the specification for a delta of \<open>n\<close> months, written
  from its words and not from the source: the carry is \<open>floor(n / 12)\<close>, the month is
  brought into 1 to 12 by two loops that move whole years, and the day is set to the
  length of the month when the start was the last day of its month, clamped to it
  otherwise. The integers are the mathematical ones.
\<close>

function spec_norm_low :: "int \<times> int \<Rightarrow> int \<times> int" where
  "spec_norm_low (m, y) = (if m < 1 then spec_norm_low (m + 12, y - 1) else (m, y))"
  by pat_completeness auto
termination
  by (relation "measure (\<lambda>(m, y). nat (1 - m))") auto

function spec_norm_high :: "int \<times> int \<Rightarrow> int \<times> int" where
  "spec_norm_high (m, y) = (if m > 12 then spec_norm_high (m - 12, y + 1) else (m, y))"
  by pat_completeness auto
termination
  by (relation "measure (\<lambda>(m, y). nat (m - 12))") auto

definition spec_month_step :: "bool \<Rightarrow> int \<Rightarrow> dmy \<Rightarrow> error + dmy" where
  "spec_month_step wasLastDayOfMonth n s =
     (let carryYears = n div 12;
          y1 = year s + carryYears;
          m1 = month s + (n - carryYears * 12)
      in case spec_norm_high (spec_norm_low (m1, y1)) of
           (m2, y2) \<Rightarrow>
             (case getMaxDayInMonth m2 y2 of
                Inl e \<Rightarrow> Inl e
              | Inr md \<Rightarrow>
                  Inr \<lparr>year = y2, month = m2,
                       day = (if wasLastDayOfMonth then md else min (day s) md)\<rparr>))"

text \<open>
  The month and year that \<open>n\<close> months after the month \<open>m\<close> of the year \<open>y\<close> land in, by
  counting months from January of the year 0.
\<close>

definition landing_year :: "int \<Rightarrow> int \<Rightarrow> int \<Rightarrow> int" where
  "landing_year y m n = (12 * y + (m - 1) + n) div 12"

definition landing_month :: "int \<Rightarrow> int \<Rightarrow> int \<Rightarrow> int" where
  "landing_month y m n = (12 * y + (m - 1) + n) mod 12 + 1"

section \<open>Counting days\<close>

text \<open>
  The calendar that the day step walks, for the proofs about it. \<open>month_days\<close> is the
  table of \<open>getMaxDayInMonth\<close> without its two checks. Months are numbered from January
  of the year 0 (\<open>idx\<close>), \<open>cum i\<close> is the number of days in the months before the
  month \<open>i\<close>, and the \<open>ordinal\<close> of year, month and day is the number of the day; the
  day may lie outside its month, as it does while the loops run.
\<close>

definition month_days :: "int \<Rightarrow> int \<Rightarrow> int" where
  "month_days m y =
     [0, 31, if isLeapYear y then 29 else 28, 31, 30, 31, 30, 31, 31, 30, 31, 30, 31] ! nat m"

definition len :: "nat \<Rightarrow> int" where
  "len i = month_days (int (i mod 12) + 1) (int (i div 12))"

fun cum :: "nat \<Rightarrow> int" where
  "cum 0 = 0"
| "cum (Suc i) = cum i + len i"

definition idx :: "dmy \<Rightarrow> nat" where
  "idx s = nat (12 * year s + (month s - 1))"

definition ordinal :: "dmy \<Rightarrow> int" where
  "ordinal s = cum (idx s) + day s"

text \<open>
  The month and year are ones that \<open>getMaxDayInMonth\<close> accepts (\<open>in_calendar\<close>), and the
  day lies in the month as well (\<open>dated\<close>), which is what \<open>isValidDate\<close> checks.
\<close>

definition in_calendar :: "dmy \<Rightarrow> bool" where
  "in_calendar s = (1 \<le> month s \<and> month s \<le> 12 \<and> 1 \<le> year s \<and> year s \<le> 9999)"

definition dated :: "dmy \<Rightarrow> bool" where
  "dated s = (in_calendar s \<and> 1 \<le> day s \<and> day s \<le> month_days (month s) (year s))"

section \<open>The codec is a bijection on well-formed strings\<close>

lemma is_digit_digit_char: "n < 10 \<Longrightarrow> is_digit (digit_char n)"
  by (simp add: is_digit_def digit_char_def)

lemma digit_val_digit_char: "n < 10 \<Longrightarrow> digit_val (digit_char n) = n"
  by (simp add: digit_val_def digit_char_def)

lemma digit_char_digit_val: "is_digit c \<Longrightarrow> digit_char (digit_val c) = c"
  by (simp add: is_digit_def digit_val_def digit_char_def)

lemma digit_val_less: "is_digit c \<Longrightarrow> digit_val c < 10"
  unfolding is_digit_def digit_val_def by linarith

lemma digit_val_zero: "digit_val CHR ''0'' = 0"
  by (simp add: digit_val_def)

lemma is_digit_zero: "is_digit CHR ''0''"
  by (simp add: is_digit_def)

lemma dec_snoc: "dec (s @ [c]) = 10 * dec s + digit_val c"
  by (simp add: dec_def)

lemma dec_Nil: "dec [] = 0"
  by (simp add: dec_def)

lemma digits_of_all: "0 \<le> n \<Longrightarrow> list_all is_digit (digits_of n)"
proof (induction n rule: digits_of.induct)
  case (1 n)
  show ?case
  proof (cases "n < 10")
    case True
    with "1.prems" show ?thesis
      by (subst digits_of.simps) (simp add: is_digit_digit_char)
  next
    case False
    with "1.prems" "1.IH" show ?thesis
      by (subst digits_of.simps) (simp add: is_digit_digit_char)
  qed
qed

lemma dec_digits_of: "0 \<le> n \<Longrightarrow> int (dec (digits_of n)) = n"
proof (induction n rule: digits_of.induct)
  case (1 n)
  show ?case
  proof (cases "n < 10")
    case True
    with "1.prems" show ?thesis
      by (subst digits_of.simps) (simp add: dec_def digit_val_digit_char)
  next
    case False
    then have "int (dec (digits_of (n div 10))) = n div 10"
      using "1.prems" "1.IH" by simp
    with False "1.prems" show ?thesis
      by (subst digits_of.simps) (simp add: dec_snoc digit_val_digit_char)
  qed
qed

lemma length_digits_of: "0 \<le> n \<Longrightarrow> n < 10 ^ k \<Longrightarrow> 0 < k \<Longrightarrow> length (digits_of n) \<le> k"
proof (induction n arbitrary: k rule: digits_of.induct)
  case (1 n)
  show ?case
  proof (cases "n < 10")
    case True
    with "1.prems" show ?thesis
      by (subst digits_of.simps) simp
  next
    case False
    obtain j where k: "k = Suc j" using "1.prems" by (cases k) simp_all
    have j0: "0 < j" using False "1.prems" k by (cases j) simp_all
    have "n < 10 * 10 ^ j \<Longrightarrow> n div 10 < 10 ^ j" by linarith
    then have "n div 10 < 10 ^ j" using "1.prems" k by simp
    with False "1.prems" "1.IH" [of j] j0 have "length (digits_of (n div 10)) \<le> j" by simp
    with False k show ?thesis
      by (subst digits_of.simps) simp
  qed
qed

lemma dec_replicate_zero: "dec (replicate j CHR ''0'' @ s) = dec s"
proof -
  have "foldl (\<lambda>a c. 10 * a + digit_val c) 0 (replicate j CHR ''0'') = 0"
    by (induction j) (simp_all add: digit_val_zero)
  then show ?thesis by (simp add: dec_def)
qed

lemma Number_of_pad: "0 \<le> n \<Longrightarrow> Number_of (pad n k) = n"
  by (simp add: pad_def padStart_def toString_def Number_of_def dec_replicate_zero dec_digits_of)

lemma length_pad: "0 \<le> n \<Longrightarrow> n < 10 ^ k \<Longrightarrow> 0 < k \<Longrightarrow> length (pad n k) = k"
  using length_digits_of [of n k] by (simp add: pad_def padStart_def toString_def)

lemma pad_all: "0 \<le> n \<Longrightarrow> list_all is_digit (pad n k)"
  using digits_of_all [of n]
  by (auto simp: pad_def padStart_def toString_def is_digit_zero list_all_iff)

lemma pad_dec:
  assumes "list_all is_digit s" "s \<noteq> []"
  shows "pad (int (dec s)) (length s) = s"
  using assms
proof (induction s rule: rev_induct)
  case Nil
  then show ?case by simp
next
  case (snoc c s)
  then have c: "is_digit c" and s: "list_all is_digit s" by simp_all
  let ?w = "int (dec (s @ [c]))"
  show ?case
  proof (cases "dec s = 0")
    case True
    then have w: "?w = int (digit_val c)" by (simp add: dec_snoc)
    have d: "digits_of ?w = [c]"
      unfolding w using digit_val_less [OF c]
      by (subst digits_of.simps) (simp add: digit_char_digit_val [OF c])
    have z: "s = replicate (length s) CHR ''0''"
    proof (cases "s = []")
      case True then show ?thesis by simp
    next
      case False
      have "digits_of 0 = ''0''"
        using digit_char_digit_val [OF is_digit_zero]
        by (subst digits_of.simps) (simp add: digit_val_zero)
      with snoc.IH [OF s False] True
      have "replicate (length s - 1) CHR ''0'' @ ''0'' = s"
        by (simp add: pad_def padStart_def toString_def)
      then have "replicate (Suc (length s - 1)) CHR ''0'' = s"
        by (simp add: replicate_append_same)
      then show ?thesis using False by (cases s) simp_all
    qed
    show ?thesis
      unfolding pad_def padStart_def toString_def d using z
      by simp
  next
    case False
    then have s0: "s \<noteq> []" by (auto simp: dec_Nil)
    have w: "?w = 10 * int (dec s) + int (digit_val c)" by (simp add: dec_snoc)
    have w10: "\<not> ?w < 10" using False by (simp add: dec_snoc)
    have dv: "?w div 10 = int (dec s)" "nat (?w mod 10) = digit_val c"
      unfolding w using digit_val_less [OF c] by simp_all
    have d: "digits_of ?w = digits_of (int (dec s)) @ [c]"
      by (subst digits_of.simps) (simp only: w10 if_False dv digit_char_digit_val [OF c])
    from snoc.IH [OF s s0]
    have "replicate (length s - length (digits_of (int (dec s)))) CHR ''0'' @ digits_of (int (dec s)) = s"
      by (simp add: pad_def padStart_def toString_def)
    then show ?thesis
      unfolding pad_def padStart_def toString_def d by simp
  qed
qed

lemma match_iso_build:
  assumes "0 \<le> y" "y < 10000" "0 \<le> m" "m < 100" "0 \<le> d" "d < 100"
  shows "match_iso (buildIsoDateString d m y) = Some (pad y 4, pad m 2, pad d 2)"
proof -
  have l: "length (pad y 4) = 4" "length (pad m 2) = 2" "length (pad d 2) = 2"
    using assms by (simp_all add: length_pad)
  have a: "list_all is_digit (pad y 4)" "list_all is_digit (pad m 2)" "list_all is_digit (pad d 2)"
    using assms by (simp_all add: pad_all)
  show ?thesis
    using l a by (simp add: match_iso_def buildIsoDateString_def nth_append)
qed

lemma toDMY_build:
  assumes "0 \<le> y" "y < 10000" "0 \<le> m" "m < 100" "0 \<le> d" "d < 100"
  shows "toDMY (buildIsoDateString d m y) = Inr \<lparr>year = y, month = m, day = d\<rparr>"
  using assms by (simp add: toDMY_def match_iso_build Number_of_pad)

lemma match_iso_Some:
  assumes "match_iso s = Some (a, b, c)"
  shows "s = a @ ''-'' @ b @ ''-'' @ c \<and> length a = 4 \<and> length b = 2 \<and> length c = 2
         \<and> list_all is_digit a \<and> list_all is_digit b \<and> list_all is_digit c"
proof -
  from assms have l: "length s = 10" and h: "s ! 4 = CHR ''-''" "s ! 7 = CHR ''-''"
    and e: "a = take 4 s" "b = take 2 (drop 5 s)" "c = drop 8 s"
    and g: "list_all is_digit a" "list_all is_digit b" "list_all is_digit c"
    by (auto simp: match_iso_def split: if_splits)
  have "s = take 4 s @ drop 4 s" by simp
  also have "drop 4 s = s ! 4 # drop 5 s" using l by (simp add: Cons_nth_drop_Suc [symmetric])
  also have "drop 5 s = take 2 (drop 5 s) @ drop 2 (drop 5 s)" by (simp only: append_take_drop_id)
  also have "drop 2 (drop 5 s) = drop 7 s" by simp
  also have "drop 7 s = s ! 7 # drop 8 s" using l by (simp add: Cons_nth_drop_Suc [symmetric])
  finally have "s = a @ ''-'' @ b @ ''-'' @ c" using h e by simp
  then show ?thesis using g l e by simp
qed

lemma build_toDMY:
  assumes "toDMY s = Inr t"
  shows "buildIsoDateString (day t) (month t) (year t) = s"
proof -
  from assms obtain a b c where m: "match_iso s = Some (a, b, c)"
    and t: "t = \<lparr>year = Number_of a, month = Number_of b, day = Number_of c\<rparr>"
    by (auto simp: toDMY_def split: option.splits)
  from match_iso_Some [OF m]
  have s: "s = a @ ''-'' @ b @ ''-'' @ c" and l: "length a = 4" "length b = 2" "length c = 2"
    and g: "list_all is_digit a" "list_all is_digit b" "list_all is_digit c" by simp_all
  have n: "a \<noteq> []" "b \<noteq> []" "c \<noteq> []" using l by auto
  have "pad (Number_of a) 4 = a" "pad (Number_of b) 2 = b" "pad (Number_of c) 2 = c"
    using pad_dec [OF g(1) n(1)] pad_dec [OF g(2) n(2)] pad_dec [OF g(3) n(3)] l
    by (simp_all add: Number_of_def)
  then show ?thesis unfolding t buildIsoDateString_def by (simp add: s)
qed

lemma isValidDate_True:
  assumes "isValidDate d m y = Inr True"
  shows "1 \<le> y \<and> y \<le> 9999 \<and> 1 \<le> m \<and> m \<le> 12 \<and> 1 \<le> d \<and> d \<le> 31
         \<and> (\<exists>md. getMaxDayInMonth m y = Inr md \<and> d \<le> md)"
  using assms by (auto simp: isValidDate_def split: if_splits sum.splits)

text \<open>
  C6. Encoding a valid date and decoding the string gives the date back; decoding a
  string that matches the pattern and encoding the fields gives the string back.
\<close>

theorem codec_round_trip:
  "(isValidDate (day d) (month d) (year d) = Inr True \<longrightarrow> toDMY (fromDMY d) = Inr d)
   \<and> (match_iso s \<noteq> None \<longrightarrow> (\<exists>t. toDMY s = Inr t \<and> fromDMY t = s))"
proof (intro conjI impI)
  assume "isValidDate (day d) (month d) (year d) = Inr True"
  from isValidDate_True [OF this]
  have "toDMY (buildIsoDateString (day d) (month d) (year d))
        = Inr \<lparr>year = year d, month = month d, day = day d\<rparr>"
    by (intro toDMY_build) simp_all
  then show "toDMY (fromDMY d) = Inr d" by (simp add: fromDMY_def)
next
  assume "match_iso s \<noteq> None"
  then obtain t where t: "toDMY s = Inr t"
    by (auto simp: toDMY_def split: option.splits)
  from build_toDMY [OF t] have "fromDMY t = s" by (simp add: fromDMY_def)
  with t show "\<exists>t. toDMY s = Inr t \<and> fromDMY t = s" by blast
qed

theorem codec_round_trip_witness:
  "isValidDate 29 2 2024 = Inr True
   \<and> toDMY (fromDMY \<lparr>year = 2024, month = 2, day = 29\<rparr>) = Inr \<lparr>year = 2024, month = 2, day = 29\<rparr>
   \<and> match_iso ''0815-06-28'' \<noteq> None
   \<and> (\<exists>t. toDMY ''0815-06-28'' = Inr t \<and> fromDMY t = ''0815-06-28'')"
proof -
  have v: "isValidDate 29 2 2024 = Inr True"
    by (simp add: isValidDate_def getMaxDayInMonth_def isLeapYear_def signed_modulo_int_def)
  have m: "match_iso ''0815-06-28'' \<noteq> None"
    by (simp add: match_iso_def is_digit_def)
  from v m codec_round_trip [of "\<lparr>year = 2024, month = 2, day = 29\<rparr>" "''0815-06-28''"]
  show ?thesis by simp
qed

section \<open>The validator\<close>

lemma getMax_bounds:
  assumes "getMaxDayInMonth m y = Inr md"
  shows "28 \<le> md \<and> md \<le> 31"
proof -
  from getMax_Inr [OF assms] have "1 \<le> m" "m \<le> 12" by simp_all
  then have "m = 1 \<or> m = 2 \<or> m = 3 \<or> m = 4 \<or> m = 5 \<or> m = 6 \<or> m = 7 \<or> m = 8 \<or> m = 9
             \<or> m = 10 \<or> m = 11 \<or> m = 12" by arith
  with assms show ?thesis
    by (auto simp: getMaxDayInMonth_def split: if_splits)
qed

text \<open>
  C8. \<open>isValidDate\<close> returns a boolean for all integers, never an error of the
  month-length lookup: \<open>true\<close> exactly when the year is in 1 to 9999, the month in 1 to
  12 and the day between 1 and the length of the month. \<open>isValidIsoDateString\<close> returns
  a boolean for every value, \<open>false\<close> for a value that is no string and for a string that
  does not match the pattern.
\<close>

theorem validity_predicates_total:
  "isValidDate d m y
     = Inr (1 \<le> y \<and> y \<le> 9999 \<and> 1 \<le> m \<and> m \<le> 12 \<and> 1 \<le> d
            \<and> (\<exists>md. getMaxDayInMonth m y = Inr md \<and> d \<le> md))
   \<and> (\<exists>b. isValidIsoDateString v = Inr b)
   \<and> isValidIsoDateString JOther = Inr False
   \<and> (match_iso s = None \<longrightarrow> isValidIsoDateString (JString s) = Inr False)"
proof -
  have a: "isValidDate d m y
     = Inr (1 \<le> y \<and> y \<le> 9999 \<and> 1 \<le> m \<and> m \<le> 12 \<and> 1 \<le> d
            \<and> (\<exists>md. getMaxDayInMonth m y = Inr md \<and> d \<le> md))" for d m y
  proof (cases "getMaxDayInMonth m y")
    case (Inl e)
    then have "y < 1 \<or> y > 9999 \<or> m < 1 \<or> m > 12"
      by (auto simp: getMaxDayInMonth_def split: if_splits)
    with Inl show ?thesis by (auto simp: isValidDate_def)
  next
    case (Inr md)
    from getMax_Inr [OF Inr] getMax_bounds [OF Inr] Inr show ?thesis
      by (auto simp: isValidDate_def)
  qed
  have b: "\<exists>b. isValidIsoDateString v = Inr b"
    by (cases v) (auto simp: isValidIsoDateString_def a split: option.splits)
  show ?thesis using b by (simp add: a isValidIsoDateString_def)
qed

theorem validity_predicates_total_witness:
  "match_iso ''2023-2-14'' = None \<and> isValidIsoDateString (JString ''2023-2-14'') = Inr False
   \<and> isValidDate 29 2 2023 = Inr False \<and> isValidDate 1 13 2023 = Inr False
   \<and> isValidDate 1 1 0 = Inr False \<and> isValidDate 28 2 2023 = Inr True"
proof -
  have m: "match_iso ''2023-2-14'' = None" by (simp add: match_iso_def)
  have g: "getMaxDayInMonth 2 2023 = Inr 28" "getMaxDayInMonth 13 2023 = Inl InvalidMonth"
    "getMaxDayInMonth 1 0 = Inl InvalidYear"
    by (simp_all add: getMaxDayInMonth_def isLeapYear_def signed_modulo_int_def)
  from validity_predicates_total [of 29 2 2023 JOther "''2023-2-14''"]
    validity_predicates_total [of 1 13 2023 JOther "''2023-2-14''"]
    validity_predicates_total [of 1 1 0 JOther "''2023-2-14''"]
    validity_predicates_total [of 28 2 2023 JOther "''2023-2-14''"]
  show ?thesis using m g by simp
qed

section \<open>The increment engine on the documented examples\<close>

text \<open>
  C3, as the specification states it: the delta of one day, two months and three years
  takes 14 February 2023 to \<open>'2026-03-02'\<close>. The engine does not return that string.
\<close>

theorem addDate_example_counterexample:
  "addDate ''2023-02-14'' \<lparr>days = Some (Integral 1), months = Some (Integral 2), years = Some (Integral 3)\<rparr>
   \<noteq> Inr ''2026-03-02''"
  by code_simp

text \<open>
  C3, amended: the delta of one day, two months and three years takes 14 February 2023 to
  \<open>'2026-04-15'\<close>, the date that the three single-field deltas reach one after the
  other in the order years, months, days.
\<close>

theorem addDate_example:
  "addDate ''2023-02-14'' \<lparr>days = Some (Integral 1), months = Some (Integral 2), years = Some (Integral 3)\<rparr>
     = Inr ''2026-04-15''
   \<and> addDate ''2023-02-14'' \<lparr>days = None, months = None, years = Some (Integral 3)\<rparr> = Inr ''2026-02-14''
   \<and> addDate ''2026-02-14'' \<lparr>days = None, months = Some (Integral 2), years = None\<rparr> = Inr ''2026-04-14''
   \<and> addDate ''2026-04-14'' \<lparr>days = Some (Integral 1), months = None, years = None\<rparr> = Inr ''2026-04-15''"
  by code_simp

text \<open>
  C1, at the input where the engine breaks it: one year after 29 February 2024, a valid
  date, the engine returns \<open>'2025-02-29'\<close>, which the validator rejects; the year step
  leaves the day as it is. Twelve months after the same date the month step returns
  the last day of February 2025.
\<close>

theorem addDate_years_only_leap_day:
  "addDate ''2024-02-29'' \<lparr>days = None, months = None, years = Some (Integral 1)\<rparr> = Inr ''2025-02-29''
   \<and> isValidIsoDateString (JString ''2024-02-29'') = Inr True
   \<and> isValidIsoDateString (JString ''2025-02-29'') = Inr False
   \<and> addDate ''2024-02-29'' \<lparr>days = None, months = Some (Integral 12), years = None\<rparr> = Inr ''2025-02-28''"
  by code_simp

section \<open>The month step\<close>

text \<open>
  On a month in 1 to 12, a year in 1 to 9999 and a safe integer \<open>n\<close> every sum of the month
  step is exact, and both the step of the source and the one of the specification land
  on the month that is \<open>n\<close> months away.
\<close>

lemma sdiv_12: "(n::int) sdiv 12 = (if 0 \<le> n then n div 12 else - ((- n) div 12))"
  by (simp add: signed_divide_int_def sgn_if)

lemma sdiv_12_bounds:
  fixes n :: int
  shows "\<bar>n sdiv 12 * 12\<bar> \<le> \<bar>n\<bar> \<and> - 11 \<le> n - n sdiv 12 * 12 \<and> n - n sdiv 12 * 12 \<le> 11"
proof (cases "0 \<le> n")
  case True
  define r where "r = n mod 12"
  have r: "0 \<le> r" "r < 12" "r \<le> n"
    using True by (simp_all add: r_def zmod_le_nonneg_dividend)
  have "n div 12 * 12 = n - r" by (simp add: r_def minus_mod_eq_div_mult)
  then have "n sdiv 12 * 12 = n - r" using True by (simp only: sdiv_12 if_True)
  then show ?thesis using r True by linarith
next
  case False
  define r where "r = (- n) mod 12"
  have r: "0 \<le> r" "r < 12" "r \<le> - n"
    using False by (simp_all add: r_def zmod_le_nonneg_dividend)
  have "(- n) div 12 * 12 = - n - r" by (simp add: r_def minus_mod_eq_div_mult)
  then have "n sdiv 12 * 12 = n + r" using False by (simp only: sdiv_12 if_False)
  then show ?thesis using r False by linarith
qed

lemma landing_unique:
  fixes L y' m' :: int
  assumes "12 * y' + (m' - 1) = L" "1 \<le> m'" "m' \<le> 12"
  shows "y' = L div 12 \<and> m' = L mod 12 + 1"
proof -
  have e: "L = 12 * y' + (m' - 1)" using assms by simp
  have "L div 12 = y'" by (rule int_div_pos_eq [OF e]) (use assms in simp_all)
  moreover have "L mod 12 = m' - 1" by (rule int_mod_pos_eq [OF e]) (use assms in simp_all)
  ultimately show ?thesis by simp
qed

lemma month_step_landing:
  assumes m: "1 \<le> month s" "month s \<le> 12" and y: "1 \<le> year s" "year s \<le> 9999"
    and n: "\<bar>n\<bar> \<le> 2 ^ 53 - 1"
  defines "L \<equiv> 12 * year s + (month s - 1) + n"
  defines "q \<equiv> n sdiv 12"
  shows "checkMonthRollover
           (s\<lparr>year := js_add (year s) q, month := js_add (month s) (js_sub n (fl (q * 12)))\<rparr>)
         = s\<lparr>year := L div 12, month := L mod 12 + 1\<rparr>"
proof -
  define r where "r = n - q * 12"
  define B :: int where "B = 2 ^ 53"
  have B: "120000 \<le> B" by (simp add: B_def)
  have n': "\<bar>n\<bar> \<le> B - 1" using n by (simp add: B_def)
  have q: "\<bar>q * 12\<bar> \<le> \<bar>n\<bar>" "- 11 \<le> r" "r \<le> 11"
    unfolding r_def q_def using sdiv_12_bounds [of n] by simp_all
  have flB: "fl x = x" if "\<bar>x\<bar> \<le> B" for x
    using that by (simp add: B_def fl_id)
  have f1: "fl (q * 12) = q * 12"
    by (rule flB) (use q(1) n' in linarith)
  have f2: "fl (n - q * 12) = r"
    unfolding r_def [symmetric] by (rule flB) (use q(2,3) B in linarith)
  have f3: "fl (month s + r) = month s + r"
    by (rule flB) (use q(2,3) m B in linarith)
  have f4: "fl (year s + q) = year s + q"
    by (rule flB) (use q(1) n' y B in linarith)
  have f5: "fl (month s + r + 12) = month s + r + 12" "fl (month s + r - 12) = month s + r - 12"
    by (rule flB, use q(2,3) m B in linarith)+
  have f6: "fl (year s + q - 1) = year s + q - 1" "fl (year s + q + 1) = year s + q + 1"
    by (rule flB, use q(1) n' y B in linarith)+
  have e: "js_add (year s) q = year s + q" "js_add (month s) (js_sub n (fl (q * 12))) = month s + r"
    by (simp_all only: js_add_def js_sub_def f1 f2 f3 f4)
  let ?s2 = "s\<lparr>year := year s + q, month := month s + r\<rparr>"
  have Leq: "L = 12 * (year s + q) + (month s + r - 1)" by (simp add: L_def r_def)
  have "checkMonthRollover ?s2 = s\<lparr>year := L div 12, month := L mod 12 + 1\<rparr>"
  proof (cases "month s + r < 1")
    case True
    have "12 * (year s + q - 1) + ((month s + r + 12) - 1) = L" by (simp add: Leq)
    from landing_unique [OF this] True m q
    have l: "year s + q - 1 = L div 12" "month s + r + 12 = L mod 12 + 1" by simp_all
    have "checkMonthRollover ?s2 = s\<lparr>year := year s + q - 1, month := month s + r + 12\<rparr>"
      using True by (simp add: checkMonthRollover_def js_add_def js_sub_def f5 f6)
    then show ?thesis by (simp only: l)
  next
    case False
    show ?thesis
    proof (cases "month s + r > 12")
      case True
      have "12 * (year s + q + 1) + ((month s + r - 12) - 1) = L" by (simp add: Leq)
      from landing_unique [OF this] True m q
      have l: "year s + q + 1 = L div 12" "month s + r - 12 = L mod 12 + 1" by simp_all
      have "checkMonthRollover ?s2 = s\<lparr>year := year s + q + 1, month := month s + r - 12\<rparr>"
        using True False by (simp add: checkMonthRollover_def js_add_def js_sub_def f5 f6)
      then show ?thesis by (simp only: l)
    next
      case f: False
      have "12 * (year s + q) + ((month s + r) - 1) = L" by (simp add: Leq)
      from landing_unique [OF this] False f
      have l: "year s + q = L div 12" "month s + r = L mod 12 + 1" by simp_all
      have "checkMonthRollover ?s2 = s\<lparr>year := year s + q, month := month s + r\<rparr>"
        using False f by (simp add: checkMonthRollover_def)
      then show ?thesis by (simp only: l)
    qed
  qed
  then show ?thesis by (simp only: e)
qed

lemma spec_landing:
  fixes m y n :: int
  assumes m: "1 \<le> m" "m \<le> 12"
  defines "L \<equiv> 12 * y + (m - 1) + n"
  shows "spec_norm_high (spec_norm_low (m + (n - n div 12 * 12), y + n div 12))
         = (L mod 12 + 1, L div 12)"
proof -
  define r where "r = n - n div 12 * 12"
  have "r = n mod 12" by (simp add: r_def minus_div_mult_eq_mod)
  then have r: "0 \<le> r" "r < 12" by simp_all
  have Leq: "L = 12 * (y + n div 12) + (m + r - 1)" by (simp add: L_def r_def)
  have low: "spec_norm_low (m + r, y + n div 12) = (m + r, y + n div 12)"
    using m r by simp
  show ?thesis
  proof (cases "m + r > 12")
    case True
    have "12 * (y + n div 12 + 1) + ((m + r - 12) - 1) = L" by (simp add: Leq)
    from landing_unique [OF this] True m r
    have "y + n div 12 + 1 = L div 12" "m + r - 12 = L mod 12 + 1" by simp_all
    moreover have "spec_norm_high (m + r, y + n div 12) = (m + r - 12, y + n div 12 + 1)"
      using True m r by simp
    ultimately show ?thesis using low by (simp add: r_def)
  next
    case False
    have "12 * (y + n div 12) + ((m + r) - 1) = L" by (simp add: Leq)
    from landing_unique [OF this] False m r
    have "y + n div 12 = L div 12" "m + r = L mod 12 + 1" by simp_all
    moreover have "spec_norm_high (m + r, y + n div 12) = (m + r, y + n div 12)"
      using False by simp
    ultimately show ?thesis using low by (simp add: r_def)
  qed
qed

lemma month_step_eq:
  assumes m: "1 \<le> month s" "month s \<le> 12" and y: "1 \<le> year s" "year s \<le> 9999"
    and n: "isSafeInteger (Integral n)" and i: "months inc = Some (Integral n)"
  defines "L \<equiv> 12 * year s + (month s - 1) + n"
  shows "month_step b inc s =
           (case getMaxDayInMonth (L mod 12 + 1) (L div 12) of
              Inl e \<Rightarrow> Inl e
            | Inr md \<Rightarrow>
                Inr (s\<lparr>year := L div 12, month := L mod 12 + 1,
                       day := (if b then md else min (day s) md)\<rparr>))"
proof -
  from n have n': "\<bar>n\<bar> \<le> 2 ^ 53 - 1" by simp
  note r = month_step_landing [OF m y n', folded L_def]
  show ?thesis
    using n by (simp add: month_step_def i Let_def r cong: sum.case_cong if_cong)
qed

lemma dmy_update_all: "(s::dmy)\<lparr>year := a, month := b, day := c\<rparr> = \<lparr>year = a, month = b, day = c\<rparr>"
  by (cases s) simp

lemma spec_month_step_eq:
  fixes n :: int
  assumes m: "1 \<le> month s" "month s \<le> 12"
  defines "L \<equiv> 12 * year s + (month s - 1) + n"
  shows "spec_month_step b n s =
           (case getMaxDayInMonth (L mod 12 + 1) (L div 12) of
              Inl e \<Rightarrow> Inl e
            | Inr md \<Rightarrow>
                Inr (s\<lparr>year := L div 12, month := L mod 12 + 1,
                       day := (if b then md else min (day s) md)\<rparr>))"
proof -
  have r: "spec_norm_high (spec_norm_low (month s + (n - n div 12 * 12), year s + n div 12))
           = (L mod 12 + 1, L div 12)"
    unfolding L_def by (rule spec_landing [OF m])
  show ?thesis
    by (simp only: spec_month_step_def Let_def r prod.case dmy_update_all)
qed

lemma addDate_months_only:
  assumes "toDMY str = Inr s" "getMaxDayInMonth (month s) (year s) = Inr md0"
  shows "addDate str \<lparr>days = None, months = Some v, years = None\<rparr> =
           (case month_step (day s = md0) \<lparr>days = None, months = Some v, years = None\<rparr> s of
              Inl e \<Rightarrow> Inl e
            | Inr t \<Rightarrow> Inr (buildIsoDateString (day t) (month t) (year t)))"
  using assms by (simp add: addDate_def year_step_def day_step_def split: sum.splits)

text \<open>
  C5. On a valid date and a safe-integer delta of months, the month step of \<open>addDate\<close>
  (quotient rounded towards zero, one conditional rollover) returns what the reference
  algorithm of the specification returns (quotient rounded down, loops), the failure
  \<open>InvalidYear\<close> included; so it does for a negative delta beyond a year that is no
  multiple of 12, such as 13 months back.
\<close>

theorem month_step_refines_spec:
  assumes "isValidDate (day s) (month s) (year s) = Inr True" and "isSafeInteger (Integral n)"
    and "months inc = Some (Integral n)"
  shows "month_step b inc s = spec_month_step b n s"
proof -
  from isValidDate_True [OF assms(1)]
  have r: "1 \<le> month s" "month s \<le> 12" "1 \<le> year s" "year s \<le> 9999" by simp_all
  show ?thesis
    by (simp only: month_step_eq [OF r assms(2,3)] spec_month_step_eq [OF r(1,2)])
qed

theorem month_step_refines_spec_witness:
  "isValidDate 31 1 2023 = Inr True \<and> isSafeInteger (Integral (- 13))
   \<and> month_step True \<lparr>days = None, months = Some (Integral (- 13)), years = None\<rparr>
         \<lparr>year = 2023, month = 1, day = 31\<rparr>
       = spec_month_step True (- 13) \<lparr>year = 2023, month = 1, day = 31\<rparr>
   \<and> spec_month_step True (- 13) \<lparr>year = 2023, month = 1, day = 31\<rparr>
       = Inr \<lparr>year = 2021, month = 12, day = 31\<rparr>"
proof -
  have v: "isValidDate 31 1 2023 = Inr True"
    by (simp add: isValidDate_def getMaxDayInMonth_def)
  have s: "isSafeInteger (Integral (- 13))" by simp
  have e: "spec_month_step True (- 13) \<lparr>year = 2023, month = 1, day = 31\<rparr>
       = Inr \<lparr>year = 2021, month = 12, day = 31\<rparr>"
    by code_simp
  from v s month_step_refines_spec [of "\<lparr>year = 2023, month = 1, day = 31\<rparr>" "- 13"
      "\<lparr>days = None, months = Some (Integral (- 13)), years = None\<rparr>" True]
  have "month_step True \<lparr>days = None, months = Some (Integral (- 13)), years = None\<rparr>
         \<lparr>year = 2023, month = 1, day = 31\<rparr>
       = spec_month_step True (- 13) \<lparr>year = 2023, month = 1, day = 31\<rparr>" by simp
  with v s e show ?thesis by blast
qed

text \<open>
  C4. A delta of \<open>n\<close> months on a valid date whose landing year is within 1 to 9999
  returns a string that decodes to the landing month and year, with the day the length
  of the landing month when the start was the last day of its month and the smaller of
  the starting day and that length otherwise.
\<close>

theorem month_delta_day_rule:
  assumes t: "toDMY str = Inr s" and v: "isValidDate (day s) (month s) (year s) = Inr True"
    and n: "isSafeInteger (Integral n)"
    and L: "1 \<le> landing_year (year s) (month s) n" "landing_year (year s) (month s) n \<le> 9999"
  shows "\<exists>md0 md r.
           getMaxDayInMonth (month s) (year s) = Inr md0
           \<and> getMaxDayInMonth (landing_month (year s) (month s) n) (landing_year (year s) (month s) n) = Inr md
           \<and> addDate str \<lparr>days = None, months = Some (Integral n), years = None\<rparr> = Inr r
           \<and> toDMY r = Inr \<lparr>year = landing_year (year s) (month s) n,
                             month = landing_month (year s) (month s) n,
                             day = (if day s = md0 then md else min (day s) md)\<rparr>"
proof -
  let ?ly = "landing_year (year s) (month s) n" and ?lm = "landing_month (year s) (month s) n"
  let ?inc = "\<lparr>days = None, months = Some (Integral n), years = None\<rparr>"
  from isValidDate_True [OF v] obtain md0
    where r: "1 \<le> month s" "month s \<le> 12" "1 \<le> year s" "year s \<le> 9999"
      and d: "1 \<le> day s" "day s \<le> 31"
      and md0: "getMaxDayInMonth (month s) (year s) = Inr md0" by blast
  have lm: "1 \<le> ?lm" "?lm \<le> 12" by (simp_all add: landing_month_def)
  then obtain md where md: "getMaxDayInMonth ?lm ?ly = Inr md"
    using L by (simp add: getMaxDayInMonth_def)
  define d' where "d' = (if day s = md0 then md else min (day s) md)"
  have d': "1 \<le> d'" "d' \<le> 31"
    using getMax_bounds [OF md] d by (auto simp: d'_def min_def)
  have i: "months ?inc = Some (Integral n)" by simp
  have ms: "month_step (day s = md0) ?inc s = Inr (s\<lparr>year := ?ly, month := ?lm, day := d'\<rparr>)"
    using month_step_eq [OF r n i, of "day s = md0"] md
    by (simp add: landing_year_def landing_month_def d'_def)
  have a: "addDate str ?inc = Inr (buildIsoDateString d' ?lm ?ly)"
    by (simp add: addDate_months_only [OF t md0] ms)
  have "toDMY (buildIsoDateString d' ?lm ?ly) = Inr \<lparr>year = ?ly, month = ?lm, day = d'\<rparr>"
    by (rule toDMY_build) (use L lm d' in simp_all)
  with md0 md a show ?thesis unfolding d'_def by blast
qed

theorem month_delta_day_rule_witness:
  "toDMY ''2023-01-31'' = Inr \<lparr>year = 2023, month = 1, day = 31\<rparr>
   \<and> isValidDate 31 1 2023 = Inr True \<and> isSafeInteger (Integral 1)
   \<and> landing_year 2023 1 1 = 2023 \<and> landing_month 2023 1 1 = 2
   \<and> getMaxDayInMonth 1 2023 = Inr 31 \<and> getMaxDayInMonth 2 2023 = Inr 28
   \<and> (\<exists>r. addDate ''2023-01-31'' \<lparr>days = None, months = Some (Integral 1), years = None\<rparr> = Inr r
          \<and> toDMY r = Inr \<lparr>year = 2023, month = 2, day = 28\<rparr>)
   \<and> addDate ''2023-01-31'' \<lparr>days = None, months = Some (Integral 1), years = None\<rparr> = Inr ''2023-02-28''"
proof -
  have t: "toDMY ''2023-01-31'' = Inr \<lparr>year = 2023, month = 1, day = 31\<rparr>" by code_simp
  have g: "getMaxDayInMonth 1 2023 = Inr 31" "getMaxDayInMonth 2 2023 = Inr 28" by code_simp+
  have v: "isValidDate 31 1 2023 = Inr True" by (simp add: isValidDate_def g)
  have n: "isSafeInteger (Integral 1)" by simp
  have l: "landing_year 2023 1 1 = 2023" "landing_month 2023 1 1 = 2"
    by (simp_all add: landing_year_def landing_month_def)
  have c: "addDate ''2023-01-31'' \<lparr>days = None, months = Some (Integral 1), years = None\<rparr> = Inr ''2023-02-28''"
    by code_simp
  from month_delta_day_rule [of "''2023-01-31''" "\<lparr>year = 2023, month = 1, day = 31\<rparr>" 1]
  have "\<exists>r. addDate ''2023-01-31'' \<lparr>days = None, months = Some (Integral 1), years = None\<rparr> = Inr r
          \<and> toDMY r = Inr \<lparr>year = 2023, month = 2, day = 28\<rparr>"
    using t v n by (simp add: l g)
  with t g v n l c show ?thesis by blast
qed

section \<open>The day step\<close>

subsection \<open>Days of the calendar are numbered one to one\<close>

lemma month_days_bounds:
  assumes "1 \<le> m" "m \<le> 12"
  shows "28 \<le> month_days m y \<and> month_days m y \<le> 31"
proof -
  from assms have "m = 1 \<or> m = 2 \<or> m = 3 \<or> m = 4 \<or> m = 5 \<or> m = 6 \<or> m = 7 \<or> m = 8 \<or> m = 9
             \<or> m = 10 \<or> m = 11 \<or> m = 12" by arith
  then show ?thesis by (auto simp: month_days_def)
qed

lemma getMax_month_days:
  "in_calendar s \<Longrightarrow> getMaxDayInMonth (month s) (year s) = Inr (month_days (month s) (year s))"
  by (simp add: in_calendar_def getMaxDayInMonth_def month_days_def)

lemma getMax_in_calendar:
  "getMaxDayInMonth (month s) (year s) = Inr md \<Longrightarrow>
     in_calendar s \<and> md = month_days (month s) (year s)"
  by (auto simp: in_calendar_def getMaxDayInMonth_def month_days_def split: if_splits)

lemma len_bounds: "28 \<le> len i \<and> len i \<le> 31"
  unfolding len_def by (rule month_days_bounds) simp_all

lemma len_idx:
  assumes "in_calendar s"
  shows "len (idx s) = month_days (month s) (year s)"
proof -
  let ?k = "12 * year s + (month s - 1)"
  have k: "0 \<le> ?k" using assms by (simp add: in_calendar_def)
  have e: "?k = 12 * year s + (month s - 1)" by simp
  have d: "?k div 12 = year s" by (rule int_div_pos_eq [OF e]) (use assms in \<open>simp_all add: in_calendar_def\<close>)
  have m: "?k mod 12 = month s - 1" by (rule int_mod_pos_eq [OF e]) (use assms in \<open>simp_all add: in_calendar_def\<close>)
  have "int (nat ?k mod 12) = ?k mod 12" "int (nat ?k div 12) = ?k div 12"
    using k by (simp_all add: zmod_int zdiv_int)
  moreover have "(month s - 1) mod 12 = month s - 1"
    using assms by (simp add: in_calendar_def)
  ultimately show ?thesis by (simp add: len_def idx_def d)
qed

lemma cum_mono: "i \<le> j \<Longrightarrow> cum i \<le> cum j"
proof (induction j)
  case 0
  then show ?case by simp
next
  case (Suc j)
  show ?case
  proof (cases "i = Suc j")
    case True then show ?thesis by simp
  next
    case False
    with Suc have "cum i \<le> cum j" by simp
    with len_bounds [of j] show ?thesis by simp
  qed
qed

lemma cum_next: "i < j \<Longrightarrow> cum i + len i \<le> cum j"
  using cum_mono [of "Suc i" j] by simp

lemma cum_bounds: "0 \<le> cum i \<and> cum i \<le> 31 * int i"
proof (induction i)
  case 0 then show ?case by simp
next
  case (Suc i)
  with len_bounds [of i] show ?case by simp
qed

lemma idx_eq:
  assumes "in_calendar s" "in_calendar t" "idx s = idx t"
  shows "year s = year t \<and> month s = month t"
proof -
  let ?k = "12 * year s + (month s - 1)" and ?l = "12 * year t + (month t - 1)"
  have "0 \<le> ?k" "0 \<le> ?l" using assms by (simp_all add: in_calendar_def)
  with assms(3) have e: "?k = ?l" by (simp add: idx_def)
  have "?k div 12 = year s" by (rule int_div_pos_eq [of _ _ _ "month s - 1"]) (use assms in \<open>simp_all add: in_calendar_def\<close>)
  moreover have "?l div 12 = year t" by (rule int_div_pos_eq [of _ _ _ "month t - 1"]) (use assms in \<open>simp_all add: in_calendar_def\<close>)
  ultimately have "year s = year t" using e by simp
  with e show ?thesis by simp
qed

lemma ordinal_inj:
  assumes s: "dated s" and t: "dated t" and o: "ordinal s = ordinal t"
  shows "s = t"
proof -
  have cs: "in_calendar s" "in_calendar t" using s t by (simp_all add: dated_def)
  have ds: "1 \<le> day s" "day s \<le> len (idx s)" "1 \<le> day t" "day t \<le> len (idx t)"
    using s t by (simp_all add: dated_def len_idx)
  have "\<not> idx s < idx t"
  proof
    assume "idx s < idx t"
    from cum_next [OF this] ds o show False by (simp add: ordinal_def)
  qed
  moreover have "\<not> idx t < idx s"
  proof
    assume "idx t < idx s"
    from cum_next [OF this] ds o show False by (simp add: ordinal_def)
  qed
  ultimately have i: "idx s = idx t" by simp
  with o have "day s = day t" by (simp add: ordinal_def)
  with idx_eq [OF cs i] show ?thesis by (cases s, cases t) simp
qed

subsection \<open>One round of either loop\<close>

lemma fl_day: "- (2 ^ 53) \<le> x \<Longrightarrow> x \<le> 2 ^ 53 \<Longrightarrow> fl x = x"
  by (rule fl_id) simp

lemma idx_pos: "in_calendar s \<Longrightarrow> int (idx s) = 12 * year s + (month s - 1)"
  by (simp add: idx_def in_calendar_def)

lemma forward_move:
  fixes d :: int
  assumes c: "in_calendar s"
  defines "s1 \<equiv> checkMonthRollover (s\<lparr>day := d, month := js_add (month s) 1\<rparr>)"
  shows "12 * year s1 + (month s1 - 1) = 12 * year s + (month s - 1) + 1
         \<and> 1 \<le> month s1 \<and> month s1 \<le> 12 \<and> 1 \<le> year s1 \<and> year s1 \<le> 10000 \<and> day s1 = d"
proof -
  from c have r: "1 \<le> month s" "month s \<le> 12" "1 \<le> year s" "year s \<le> 9999"
    by (simp_all add: in_calendar_def)
  have m: "js_add (month s) 1 = month s + 1" "js_add (year s) 1 = year s + 1"
    using r by (simp_all add: js_add_def fl_id)
  show ?thesis
  proof (cases "month s = 12")
    case True
    then show ?thesis using r by (simp add: s1_def checkMonthRollover_def js_add_def js_sub_def fl_id)
  next
    case False
    then show ?thesis using r by (simp add: s1_def checkMonthRollover_def m)
  qed
qed

lemma back_move:
  assumes c: "in_calendar s" and i: "13 \<le> idx s"
  defines "s1 \<equiv> checkMonthRollover (s\<lparr>month := js_sub (month s) 1\<rparr>)"
  shows "in_calendar s1 \<and> Suc (idx s1) = idx s \<and> day s1 = day s"
proof -
  from c have r: "1 \<le> month s" "month s \<le> 12" "1 \<le> year s" "year s \<le> 9999"
    by (simp_all add: in_calendar_def)
  from i idx_pos [OF c] have i': "13 \<le> 12 * year s + (month s - 1)" by simp
  have m: "js_sub (month s) 1 = month s - 1" "js_sub (year s) 1 = year s - 1"
    using r by (simp_all add: js_sub_def fl_id)
  show ?thesis
  proof (cases "month s = 1")
    case True
    with i' have "2 \<le> year s" by simp
    then show ?thesis using True r
      by (simp add: s1_def checkMonthRollover_def js_add_def js_sub_def fl_id in_calendar_def idx_def)
  next
    case False
    then show ?thesis using r
      by (simp add: s1_def checkMonthRollover_def m in_calendar_def idx_def)
  qed
qed

subsection \<open>What the loops return, when they return\<close>

lemma back_loop_stop: "1 \<le> day s \<Longrightarrow> back_loop s = Inr s"
  by (subst back_loop.simps) simp

lemma back_loop_unfold:
  assumes "day s < 1" "back_loop s = Inr t"
  shows "\<exists>md. getMaxDayInMonth (month (checkMonthRollover (s\<lparr>month := js_sub (month s) 1\<rparr>)))
                 (year (checkMonthRollover (s\<lparr>month := js_sub (month s) 1\<rparr>))) = Inr md
             \<and> back_loop ((checkMonthRollover (s\<lparr>month := js_sub (month s) 1\<rparr>))
                   \<lparr>day := js_add (day (checkMonthRollover (s\<lparr>month := js_sub (month s) 1\<rparr>))) md\<rparr>) = Inr t"
  using assms(2) by (subst (asm) back_loop.simps) (simp add: assms(1) Let_def split: sum.splits)

lemma ordinal_back:
  assumes "in_calendar s1" "Suc (idx s1) = idx s" "md = month_days (month s1) (year s1)"
  shows "ordinal (s1\<lparr>day := d + md\<rparr>) = cum (idx s) + d"
proof -
  have "cum (idx s) = cum (idx s1) + len (idx s1)" using assms(2) [symmetric] by simp
  then show ?thesis using len_idx [OF assms(1)] assms(3) by (simp add: ordinal_def idx_def)
qed

lemma back_loop_sound:
  "back_loop s = Inr t \<Longrightarrow> in_calendar s \<Longrightarrow> day s < 1 \<Longrightarrow> - (2 ^ 53) \<le> day s
   \<Longrightarrow> dated t \<and> ordinal t = ordinal s"
proof (induction s rule: back_loop.induct)
  case (1 s)
  define s1 where "s1 = checkMonthRollover (s\<lparr>month := js_sub (month s) 1\<rparr>)"
  from back_loop_unfold [OF "1.prems"(3,1)] obtain md
    where g: "getMaxDayInMonth (month s1) (year s1) = Inr md"
      and b: "back_loop (s1\<lparr>day := js_add (day s1) md\<rparr>) = Inr t"
    unfolding s1_def by blast
  from getMax_in_calendar [OF g] have c1: "in_calendar s1" and md: "md = month_days (month s1) (year s1)"
    by simp_all
  from back_step [OF s1_def g] have i: "12 * year s1 + month s1 = 12 * year s + month s - 1"
    and d1: "day s1 = day s" by simp_all
  have ix: "Suc (idx s1) = idx s"
    using i c1 "1.prems"(2) unfolding idx_def in_calendar_def by linarith
  have mb: "28 \<le> md" "md \<le> 31" using getMax_bounds [OF g] by simp_all
  have e: "js_add (day s1) md = day s + md"
    unfolding js_add_def d1 by (rule fl_day) (use mb "1.prems"(3,4) in simp_all)
  let ?s' = "s1\<lparr>day := day s + md\<rparr>"
  have c': "in_calendar ?s'" using c1 by (simp add: in_calendar_def)
  have o: "ordinal ?s' = ordinal s"
    using ordinal_back [OF c1 ix md, of "day s"] by (simp add: ordinal_def)
  have b': "back_loop ?s' = Inr t" using b by (simp only: e)
  show ?case
  proof (cases "day s + md < 1")
    case True
    have "dated t \<and> ordinal t = ordinal (s1\<lparr>day := js_add (day s1) md\<rparr>)"
    proof (rule "1.IH" [OF "1.prems"(3) s1_def g b])
      show "in_calendar (s1\<lparr>day := js_add (day s1) md\<rparr>)" using c' by (simp only: e)
      show "day (s1\<lparr>day := js_add (day s1) md\<rparr>) < 1" using True by (simp add: e)
      show "- (2 ^ 53) \<le> day (s1\<lparr>day := js_add (day s1) md\<rparr>)"
        using mb "1.prems"(4) by (simp add: e)
    qed
    then show ?thesis using o by (simp only: e)
  next
    case False
    then have "back_loop ?s' = Inr ?s'" by (intro back_loop_stop) simp
    with b' have t: "t = ?s'" by simp
    have "dated ?s'" using c' False "1.prems"(3) md by (simp add: dated_def)
    then show ?thesis using o t by simp
  qed
qed

lemma forward_loop_stop:
  "in_calendar s \<Longrightarrow> day s \<le> month_days (month s) (year s) \<Longrightarrow> forward_loop s = Inr s"
  by (subst forward_loop.simps) (simp add: getMax_month_days)

lemma forward_loop_go:
  assumes "in_calendar s" "\<not> day s \<le> month_days (month s) (year s)"
  shows "forward_loop s =
         forward_loop (checkMonthRollover
           (s\<lparr>day := js_sub (day s) (month_days (month s) (year s)), month := js_add (month s) 1\<rparr>))"
  by (subst forward_loop.simps) (simp add: getMax_month_days assms)

lemma forward_loop_Inr:
  "forward_loop s = Inr t \<Longrightarrow> in_calendar s"
  by (subst (asm) forward_loop.simps) (auto simp: in_calendar_def dest: getMax_Inr split: sum.splits)

lemma ordinal_forward:
  assumes c: "in_calendar s"
    and i: "12 * year s1 + (month s1 - 1) = 12 * year s + (month s - 1) + 1"
    and d: "day s1 = day s - month_days (month s) (year s)"
  shows "ordinal s1 = ordinal s"
proof -
  have "int (idx s1) = int (idx s) + 1"
    using i c by (simp add: idx_def in_calendar_def)
  then have "idx s1 = Suc (idx s)" by simp
  then have "cum (idx s1) = cum (idx s) + len (idx s)" by simp
  then show ?thesis using len_idx [OF c] d by (simp add: ordinal_def)
qed

lemma forward_loop_sound:
  "forward_loop s = Inr t \<Longrightarrow> 1 \<le> day s \<Longrightarrow> day s \<le> 2 ^ 53
   \<Longrightarrow> dated t \<and> ordinal t = ordinal s"
proof (induction s rule: forward_loop.induct)
  case (1 s)
  from forward_loop_Inr [OF "1.prems"(1)] have c: "in_calendar s" .
  let ?md = "month_days (month s) (year s)"
  have g: "getMaxDayInMonth (month s) (year s) = Inr ?md" by (rule getMax_month_days [OF c])
  have mb: "28 \<le> ?md" "?md \<le> 31"
    using month_days_bounds [of "month s" "year s"] c by (simp_all add: in_calendar_def)
  show ?case
  proof (cases "day s \<le> ?md")
    case True
    with forward_loop_stop [OF c] "1.prems"(1) have "t = s" by simp
    then show ?thesis using c True "1.prems"(2) by (simp add: dated_def)
  next
    case False
    let ?s1 = "checkMonthRollover (s\<lparr>day := js_sub (day s) ?md, month := js_add (month s) 1\<rparr>)"
    have e: "js_sub (day s) ?md = day s - ?md"
      unfolding js_sub_def by (rule fl_day) (use mb False "1.prems"(3) in simp_all)
    from forward_move [OF c, of "js_sub (day s) ?md"]
    have i: "12 * year ?s1 + (month ?s1 - 1) = 12 * year s + (month s - 1) + 1"
      and d: "day ?s1 = day s - ?md" by (simp_all add: e)
    have f: "forward_loop ?s1 = Inr t" using "1.prems"(1) forward_loop_go [OF c False] by simp
    have "dated t \<and> ordinal t = ordinal ?s1"
    proof (rule "1.IH" [OF g False f])
      show "1 \<le> day ?s1" using False d by simp
      show "day ?s1 \<le> 2 ^ 53" using d mb "1.prems"(3) by simp
    qed
    then show ?thesis using ordinal_forward [OF c i d] by simp
  qed
qed

lemma forward_loop_bound:
  "forward_loop s = Inr t \<Longrightarrow> day s \<le> 32 * (120012 - (12 * year s + month s))"
proof (induction s rule: forward_loop.induct)
  case (1 s)
  from forward_loop_Inr [OF "1.prems"(1)] have c: "in_calendar s" .
  let ?md = "month_days (month s) (year s)"
  have g: "getMaxDayInMonth (month s) (year s) = Inr ?md" by (rule getMax_month_days [OF c])
  have mb: "28 \<le> ?md" "?md \<le> 31"
    using month_days_bounds [of "month s" "year s"] c by (simp_all add: in_calendar_def)
  have r: "12 * year s + month s \<le> 120000" using c by (simp add: in_calendar_def)
  show ?case
  proof (cases "day s \<le> ?md")
    case True
    with mb r show ?thesis by simp
  next
    case False
    let ?s1 = "checkMonthRollover (s\<lparr>day := js_sub (day s) ?md, month := js_add (month s) 1\<rparr>)"
    from forward_move [OF c, of "js_sub (day s) ?md"]
    have i: "12 * year ?s1 + month ?s1 = 12 * year s + month s + 1"
      and d: "day ?s1 = fl (day s - ?md)" by (simp_all add: js_sub_def)
    have f: "forward_loop ?s1 = Inr t" using "1.prems"(1) forward_loop_go [OF c False] by simp
    from "1.IH" [OF g False f] i d
    have b: "fl (day s - ?md) \<le> 32 * (120012 - (12 * year s + month s)) - 32" by simp
    have small: "fl (day s - ?md) < 2 ^ 53" using b r c by (simp add: in_calendar_def)
    have "day s - ?md \<le> 2 ^ 53"
    proof (rule ccontr)
      assume "\<not> day s - ?md \<le> 2 ^ 53"
      then have "2 ^ 53 \<le> fl (day s - ?md)" by (intro fl_big_pos) simp
      with small show False by simp
    qed
    moreover have "- (2 ^ 53) \<le> day s - ?md" using False by simp
    ultimately have "fl (day s - ?md) = day s - ?md" by (intro fl_day)
    with b mb show ?thesis by simp
  qed
qed

subsection \<open>The loops reach every date of the calendar\<close>

lemma dated_idx_ge: "dated t \<Longrightarrow> 12 \<le> idx t"
  unfolding dated_def in_calendar_def idx_def by linarith

lemma dated_idx_le: "in_calendar t \<Longrightarrow> idx t \<le> 119999"
  unfolding in_calendar_def idx_def by linarith

lemma back_loop_go:
  assumes "in_calendar s" "13 \<le> idx s" "day s < 1"
  defines "s1 \<equiv> checkMonthRollover (s\<lparr>month := js_sub (month s) 1\<rparr>)"
  shows "back_loop s = back_loop (s1\<lparr>day := js_add (day s1) (month_days (month s1) (year s1))\<rparr>)"
proof -
  from back_move [OF assms(1,2)] have "in_calendar s1" by (simp add: s1_def)
  from getMax_month_days [OF this] assms(3) show ?thesis
    by (subst back_loop.simps) (simp add: s1_def [symmetric] Let_def)
qed

lemma back_loop_reach:
  "in_calendar s \<Longrightarrow> day s < 1 \<Longrightarrow> - (2 ^ 53) \<le> day s \<Longrightarrow> dated t \<Longrightarrow> ordinal t = ordinal s
   \<Longrightarrow> back_loop s = Inr t"
proof (induction s rule: back_loop.induct)
  case (1 s)
  note c = "1.prems"(1) and neg = "1.prems"(2) and lo = "1.prems"(3) and t = "1.prems"(4) and o = "1.prems"(5)
  define s1 where "s1 = checkMonthRollover (s\<lparr>month := js_sub (month s) 1\<rparr>)"
  have dt: "1 \<le> day t" "in_calendar t" using t by (simp_all add: dated_def)
  have lt: "idx t < idx s"
  proof (rule ccontr)
    assume "\<not> idx t < idx s"
    then have "cum (idx s) \<le> cum (idx t)" by (intro cum_mono) simp
    with o dt neg show False by (simp add: ordinal_def)
  qed
  with dated_idx_ge [OF t] have i13: "13 \<le> idx s" by simp
  from back_move [OF c i13] have c1: "in_calendar s1" and ix: "Suc (idx s1) = idx s" and d1: "day s1 = day s"
    by (simp_all add: s1_def)
  let ?md = "month_days (month s1) (year s1)"
  have g: "getMaxDayInMonth (month s1) (year s1) = Inr ?md" by (rule getMax_month_days [OF c1])
  have mb: "28 \<le> ?md" "?md \<le> 31" using getMax_bounds [OF g] by simp_all
  have e: "js_add (day s1) ?md = day s + ?md"
    unfolding js_add_def d1 by (rule fl_day) (use mb neg lo in simp_all)
  let ?s' = "s1\<lparr>day := js_add (day s1) ?md\<rparr>"
  have s': "?s' = s1\<lparr>day := day s + ?md\<rparr>" by (simp only: e)
  have c': "in_calendar ?s'" using c1 by (simp add: in_calendar_def)
  have o': "ordinal ?s' = ordinal s"
    unfolding s' using ordinal_back [OF c1 ix refl, of "day s"] by (simp add: ordinal_def)
  have go: "back_loop s = back_loop ?s'"
    using back_loop_go [OF c i13 neg] by (simp add: s1_def)
  show ?case
  proof (cases "day ?s' < 1")
    case True
    have "back_loop ?s' = Inr t"
    proof (rule "1.IH" [OF neg s1_def g c' True _ t])
      show "- (2 ^ 53) \<le> day ?s'" using mb lo by (simp add: e)
      show "ordinal t = ordinal ?s'" using o o' by simp
    qed
    with go show ?thesis by simp
  next
    case False
    then have st: "back_loop ?s' = Inr ?s'" by (intro back_loop_stop) simp
    have "dated ?s'" using c' False neg by (simp add: dated_def e)
    from ordinal_inj [OF this t] o o' have "?s' = t" by simp
    with go st show ?thesis by simp
  qed
qed

lemma forward_loop_reach:
  "in_calendar s \<Longrightarrow> 1 \<le> day s \<Longrightarrow> day s \<le> 2 ^ 53 \<Longrightarrow> dated t \<Longrightarrow> ordinal t = ordinal s
   \<Longrightarrow> forward_loop s = Inr t"
proof (induction s rule: forward_loop.induct)
  case (1 s)
  note c = "1.prems"(1) and pos = "1.prems"(2) and hi = "1.prems"(3) and t = "1.prems"(4) and o = "1.prems"(5)
  let ?md = "month_days (month s) (year s)"
  have g: "getMaxDayInMonth (month s) (year s) = Inr ?md" by (rule getMax_month_days [OF c])
  have mb: "28 \<le> ?md" "?md \<le> 31" using getMax_bounds [OF g] by simp_all
  have dt: "day t \<le> len (idx t)" "in_calendar t" using t by (simp_all add: dated_def len_idx)
  show ?case
  proof (cases "day s \<le> ?md")
    case True
    then have "dated s" using c pos by (simp add: dated_def)
    from ordinal_inj [OF this t] o have "s = t" by simp
    with forward_loop_stop [OF c True] show ?thesis by simp
  next
    case False
    let ?s1 = "checkMonthRollover (s\<lparr>day := js_sub (day s) ?md, month := js_add (month s) 1\<rparr>)"
    have gt: "idx s < idx t"
    proof (rule ccontr)
      assume "\<not> idx s < idx t"
      then have "idx t \<le> idx s" by simp
      then have "cum (Suc (idx t)) \<le> cum (Suc (idx s))" by (intro cum_mono) simp
      with o dt False len_idx [OF c] show False by (simp add: ordinal_def)
    qed
    have e: "js_sub (day s) ?md = day s - ?md"
      unfolding js_sub_def by (rule fl_day) (use mb False hi in simp_all)
    from forward_move [OF c, of "js_sub (day s) ?md"]
    have i: "12 * year ?s1 + (month ?s1 - 1) = 12 * year s + (month s - 1) + 1"
      and m1: "1 \<le> month ?s1" "month ?s1 \<le> 12" "1 \<le> year ?s1"
      and d: "day ?s1 = day s - ?md" by (simp_all add: e)
    have "int (idx s) + 1 \<le> 119999" using gt dated_idx_le [OF dt(2)] by simp
    then have "12 * year ?s1 + (month ?s1 - 1) \<le> 119999" using i idx_pos [OF c] by simp
    with m1 have c1: "in_calendar ?s1" by (simp add: in_calendar_def)
    have "forward_loop ?s1 = Inr t"
    proof (rule "1.IH" [OF g False c1 _ _ t])
      show "1 \<le> day ?s1" using False d by simp
      show "day ?s1 \<le> 2 ^ 53" using d mb hi by simp
      show "ordinal t = ordinal ?s1" using ordinal_forward [OF c i d] o by simp
    qed
    with forward_loop_go [OF c False] show ?thesis by simp
  qed
qed

subsection \<open>Adding days and taking them away\<close>

lemma dated_iff_valid: "dated s \<longleftrightarrow> isValidDate (day s) (month s) (year s) = Inr True"
proof
  assume d: "dated s"
  then have c: "in_calendar s" by (simp add: dated_def)
  from month_days_bounds [of "month s" "year s"] c d
  have "day s \<le> 31" by (simp add: dated_def in_calendar_def)
  with d show "isValidDate (day s) (month s) (year s) = Inr True"
    using getMax_month_days [OF c] by (simp add: isValidDate_def dated_def in_calendar_def)
next
  assume "isValidDate (day s) (month s) (year s) = Inr True"
  from isValidDate_True [OF this] obtain md
    where r: "1 \<le> year s" "year s \<le> 9999" "1 \<le> month s" "month s \<le> 12" "1 \<le> day s"
      and g: "getMaxDayInMonth (month s) (year s) = Inr md" "day s \<le> md" by blast
  from getMax_in_calendar [OF g(1)] r g(2) show "dated s" by (simp add: dated_def)
qed

lemma toDMY_dated:
  assumes "dated t"
  shows "toDMY (buildIsoDateString (day t) (month t) (year t)) = Inr t"
proof -
  from assms have c: "in_calendar t" and d: "1 \<le> day t" "day t \<le> month_days (month t) (year t)"
    by (simp_all add: dated_def)
  from month_days_bounds [of "month t" "year t"] c d have "day t \<le> 31" by (simp add: in_calendar_def)
  with c d have "toDMY (buildIsoDateString (day t) (month t) (year t))
                 = Inr \<lparr>year = year t, month = month t, day = day t\<rparr>"
    by (intro toDMY_build) (simp_all add: in_calendar_def)
  then show ?thesis by simp
qed

lemma ordinal_range:
  assumes "dated s"
  shows "1 \<le> ordinal s \<and> ordinal s \<le> 3720000"
proof -
  from assms have c: "in_calendar s" and d: "1 \<le> day s" "day s \<le> month_days (month s) (year s)"
    by (simp_all add: dated_def)
  from month_days_bounds [of "month s" "year s"] c d have "day s \<le> 31" by (simp add: in_calendar_def)
  moreover have "0 \<le> cum (idx s)" "cum (idx s) \<le> 31 * int (idx s)" using cum_bounds [of "idx s"] by simp_all
  moreover have "int (idx s) \<le> 119999" using dated_idx_le [OF c] by simp
  ultimately show ?thesis using d unfolding ordinal_def by linarith
qed

lemma day_step_eq:
  assumes "days inc = Some (Integral n)" "isSafeInteger (Integral n)"
  shows "day_step inc s =
           (case back_loop (s\<lparr>day := js_add (day s) n\<rparr>) of
              Inl e \<Rightarrow> Inl e
            | Inr s1 \<Rightarrow> forward_loop s1)"
  using assms by (simp add: day_step_def)

lemma day_step_Inr:
  assumes "days inc = Some (Integral n)" "day_step inc s = Inr t"
  shows "isSafeInteger (Integral n)
         \<and> (\<exists>s1. back_loop (s\<lparr>day := js_add (day s) n\<rparr>) = Inr s1 \<and> forward_loop s1 = Inr t)"
  using assms by (auto simp: day_step_def split: if_splits sum.splits)

lemma day_step_sound:
  assumes s: "dated s" and i: "days inc = Some (Integral n)" and r: "day_step inc s = Inr t"
  shows "dated t \<and> ordinal t = ordinal s + n"
proof -
  from day_step_Inr [OF i r] obtain s1
    where n: "\<bar>n\<bar> \<le> 2 ^ 53 - 1"
      and b: "back_loop (s\<lparr>day := js_add (day s) n\<rparr>) = Inr s1"
      and f: "forward_loop s1 = Inr t" by auto
  from s have c: "in_calendar s" and d: "1 \<le> day s" "day s \<le> month_days (month s) (year s)"
    by (simp_all add: dated_def)
  let ?x = "day s + n"
  let ?sa = "s\<lparr>day := js_add (day s) n\<rparr>"
  have ca: "in_calendar ?sa" using c by (simp add: in_calendar_def)
  have lo: "- (2 ^ 53) \<le> ?x" using n d by simp
  have hi: "?x \<le> 2 ^ 53"
  proof (rule ccontr)
    assume "\<not> ?x \<le> 2 ^ 53"
    then have big: "2 ^ 53 \<le> fl ?x" by (intro fl_big_pos) simp
    then have "1 \<le> day ?sa" by (simp add: js_add_def)
    from back_loop_stop [OF this] b have "s1 = ?sa" by simp
    with f have "forward_loop ?sa = Inr t" by simp
    from forward_loop_bound [OF this] c
    have "fl ?x \<le> 32 * 120012" by (simp add: js_add_def in_calendar_def)
    with big show False by simp
  qed
  have e: "js_add (day s) n = ?x" unfolding js_add_def using lo hi by (rule fl_day)
  have oa: "ordinal ?sa = ordinal s + n" by (simp add: ordinal_def idx_def e)
  show ?thesis
  proof (cases "?x < 1")
    case True
    from back_loop_sound [OF b ca] True lo
    have s1: "dated s1" "ordinal s1 = ordinal ?sa" by (simp_all add: e)
    then have "forward_loop s1 = Inr s1" by (intro forward_loop_stop) (simp_all add: dated_def)
    with f have "t = s1" by simp
    with s1 oa show ?thesis by simp
  next
    case False
    then have "1 \<le> day ?sa" by (simp add: e)
    from back_loop_stop [OF this] b have "s1 = ?sa" by simp
    with f have "forward_loop ?sa = Inr t" by simp
    from forward_loop_sound [OF this] False hi oa show ?thesis by (simp add: e)
  qed
qed

lemma day_step_reach:
  assumes s: "dated s" and t: "dated t" and o: "ordinal t = ordinal s + n"
    and i: "days inc = Some (Integral n)"
  shows "day_step inc s = Inr t"
proof -
  from s have c: "in_calendar s" and d: "1 \<le> day s" "day s \<le> month_days (month s) (year s)"
    by (simp_all add: dated_def)
  from month_days_bounds [of "month s" "year s"] c d have d31: "day s \<le> 31" by (simp add: in_calendar_def)
  from ordinal_range [OF s] ordinal_range [OF t] o
  have n: "- 3720000 \<le> n" "n \<le> 3720000" by simp_all
  then have safe: "isSafeInteger (Integral n)" by simp
  let ?x = "day s + n"
  let ?sa = "s\<lparr>day := js_add (day s) n\<rparr>"
  have lo: "- (2 ^ 53) \<le> ?x" and hi: "?x \<le> 2 ^ 53" using n d d31 by simp_all
  have e: "js_add (day s) n = ?x" unfolding js_add_def using lo hi by (rule fl_day)
  have ca: "in_calendar ?sa" using c by (simp add: in_calendar_def)
  have oa: "ordinal t = ordinal ?sa" using o by (simp add: ordinal_def idx_def e)
  have ft: "forward_loop t = Inr t" using t by (intro forward_loop_stop) (simp_all add: dated_def)
  show ?thesis
  proof (cases "?x < 1")
    case True
    have "back_loop ?sa = Inr t"
      by (rule back_loop_reach [OF ca _ _ t oa]) (use True lo in \<open>simp_all add: e\<close>)
    with ft show ?thesis by (simp add: day_step_eq [OF i safe])
  next
    case False
    then have "1 \<le> day ?sa" by (simp add: e)
    from back_loop_stop [OF this] have b: "back_loop ?sa = Inr ?sa" .
    have "forward_loop ?sa = Inr t"
      by (rule forward_loop_reach [OF ca _ _ t oa]) (use False hi in \<open>simp_all add: e\<close>)
    with b show ?thesis by (simp add: day_step_eq [OF i safe])
  qed
qed

lemma addDate_days_only:
  assumes "toDMY str = Inr s" "getMaxDayInMonth (month s) (year s) = Inr md0"
  shows "addDate str \<lparr>days = Some v, months = None, years = None\<rparr> =
           (case day_step \<lparr>days = Some v, months = None, years = None\<rparr> s of
              Inl e \<Rightarrow> Inl e
            | Inr t \<Rightarrow> Inr (buildIsoDateString (day t) (month t) (year t)))"
  using assms by (simp add: addDate_def year_step_def month_step_def)

text \<open>
  C7. When a delta of \<open>n\<close> days on a valid date returns a string, no year on the way
  having left 1 to 9999, the delta of \<open>-n\<close> days on that string returns the starting
  string.
\<close>

theorem add_then_subtract_days:
  assumes d: "toDMY str = Inr s" and v: "isValidDate (day s) (month s) (year s) = Inr True"
    and a: "addDate str \<lparr>days = Some (Integral n), months = None, years = None\<rparr> = Inr r"
  shows "addDate r \<lparr>days = Some (Integral (- n)), months = None, years = None\<rparr> = Inr str"
proof -
  let ?inc = "\<lparr>days = Some (Integral n), months = None, years = None\<rparr>"
  let ?dec = "\<lparr>days = Some (Integral (- n)), months = None, years = None\<rparr>"
  from v have s: "dated s" by (simp add: dated_iff_valid)
  then have g: "getMaxDayInMonth (month s) (year s) = Inr (month_days (month s) (year s))"
    by (intro getMax_month_days) (simp add: dated_def)
  from a obtain t where t: "day_step ?inc s = Inr t"
    and r: "r = buildIsoDateString (day t) (month t) (year t)"
    by (auto simp: addDate_days_only [OF d g] split: sum.splits)
  have i: "days ?inc = Some (Integral n)" "days ?dec = Some (Integral (- n))" by simp_all
  from day_step_sound [OF s i(1) t] have dt: "dated t" and o: "ordinal t = ordinal s + n" by simp_all
  have dr: "toDMY r = Inr t" unfolding r by (rule toDMY_dated [OF dt])
  have gt: "getMaxDayInMonth (month t) (year t) = Inr (month_days (month t) (year t))"
    using dt by (intro getMax_month_days) (simp add: dated_def)
  have "ordinal s = ordinal t + (- n)" using o by simp
  from day_step_reach [OF dt s this i(2)] have "day_step ?dec t = Inr s" .
  then have "addDate r ?dec = Inr (buildIsoDateString (day s) (month s) (year s))"
    by (simp add: addDate_days_only [OF dr gt])
  with build_toDMY [OF d] show ?thesis by simp
qed

theorem add_then_subtract_days_witness:
  "toDMY ''2023-02-14'' = Inr \<lparr>year = 2023, month = 2, day = 14\<rparr>
   \<and> isValidDate 14 2 2023 = Inr True
   \<and> addDate ''2023-02-14'' \<lparr>days = Some (Integral (- 86)), months = None, years = None\<rparr> = Inr ''2022-11-20''
   \<and> addDate ''2022-11-20'' \<lparr>days = Some (Integral 86), months = None, years = None\<rparr> = Inr ''2023-02-14''"
proof -
  have d: "toDMY ''2023-02-14'' = Inr \<lparr>year = 2023, month = 2, day = 14\<rparr>" by code_simp
  have v: "isValidDate 14 2 2023 = Inr True" by code_simp
  have a: "addDate ''2023-02-14'' \<lparr>days = Some (Integral (- 86)), months = None, years = None\<rparr> = Inr ''2022-11-20''"
    by code_simp
  from add_then_subtract_days [of "''2023-02-14''" "\<lparr>year = 2023, month = 2, day = 14\<rparr>" "- 86" "''2022-11-20''"] d v a
  have "addDate ''2022-11-20'' \<lparr>days = Some (Integral 86), months = None, years = None\<rparr> = Inr ''2023-02-14''"
    by simp
  with d v a show ?thesis by blast
qed

section \<open>The failures of the engine\<close>

text \<open>
  After the first lookup the month stays in 1 to 12 whatever the year has become, so the
  lookups of the month step and of the loops fail with \<open>InvalidYear\<close> only.
\<close>

lemma dec_bound: "list_all is_digit s \<Longrightarrow> dec s < 10 ^ length s"
proof (induction s rule: rev_induct)
  case Nil
  then show ?case by (simp add: dec_Nil)
next
  case (snoc c s)
  then have "dec s < 10 ^ length s" and "digit_val c < 10" by (simp_all add: digit_val_less)
  then show ?case by (simp add: dec_snoc)
qed

lemma toDMY_range:
  assumes "toDMY str = Inr s"
  shows "0 \<le> year s \<and> year s \<le> 9999 \<and> 0 \<le> month s \<and> month s \<le> 99 \<and> 0 \<le> day s \<and> day s \<le> 99"
proof -
  from assms obtain a b c where m: "match_iso str = Some (a, b, c)"
    and s: "s = \<lparr>year = Number_of a, month = Number_of b, day = Number_of c\<rparr>"
    by (auto simp: toDMY_def split: option.splits)
  from match_iso_Some [OF m] have l: "length a = 4" "length b = 2" "length c = 2"
    and g: "list_all is_digit a" "list_all is_digit b" "list_all is_digit c" by simp_all
  from dec_bound [OF g(1)] dec_bound [OF g(2)] dec_bound [OF g(3)] l
  show ?thesis by (simp add: s Number_of_def)
qed

lemma rollover_month_range:
  assumes "- 10 \<le> month s" "month s \<le> 23"
  shows "1 \<le> month (checkMonthRollover s) \<and> month (checkMonthRollover s) \<le> 12"
proof -
  have "js_add (month s) 12 = month s + 12" "js_sub (month s) 12 = month s - 12"
    using assms by (simp_all add: js_add_def js_sub_def fl_id)
  then show ?thesis using assms by (simp add: checkMonthRollover_def)
qed

lemma month_offset:
  assumes n: "\<bar>n\<bar> \<le> 2 ^ 53 - 1" and m: "1 \<le> m" "m \<le> 12"
  shows "- 10 \<le> js_add m (js_sub n (fl (n sdiv 12 * 12)))
         \<and> js_add m (js_sub n (fl (n sdiv 12 * 12))) \<le> 23"
proof -
  define q where "q = n sdiv 12"
  define r where "r = n - q * 12"
  define B :: int where "B = 2 ^ 53"
  have B: "120000 \<le> B" by (simp add: B_def)
  have n': "\<bar>n\<bar> \<le> B - 1" using n by (simp add: B_def)
  have q: "\<bar>q * 12\<bar> \<le> \<bar>n\<bar>" "- 11 \<le> r" "r \<le> 11"
    unfolding r_def q_def using sdiv_12_bounds [of n] by simp_all
  have flB: "fl x = x" if "\<bar>x\<bar> \<le> B" for x
    using that by (simp add: B_def fl_id)
  have f1: "fl (q * 12) = q * 12"
    by (rule flB) (use q(1) n' in linarith)
  have f2: "fl (n - q * 12) = r"
    unfolding r_def [symmetric] by (rule flB) (use q(2,3) B in linarith)
  have f3: "fl (m + r) = m + r"
    by (rule flB) (use q(2,3) m B in linarith)
  have "js_add m (js_sub n (fl (q * 12))) = m + r"
    by (simp only: js_add_def js_sub_def f1 f2 f3)
  then show ?thesis using q m by (simp add: q_def)
qed

lemma year_step_cases:
  "(year_step inc s = Inl e \<longrightarrow> e = NonIntegerDelta \<and> (\<exists>v. years inc = Some v \<and> \<not> isSafeInteger v))
   \<and> (year_step inc s = Inr t \<longrightarrow> month t = month s \<and> day t = day s)"
  by (auto simp: year_step_def split: option.splits jsnum.splits if_splits)

lemma month_step_cases:
  assumes m: "1 \<le> month s" "month s \<le> 12"
  shows "(month_step b inc s = Inl e \<longrightarrow>
            (e = NonIntegerDelta \<and> (\<exists>v. months inc = Some v \<and> \<not> isSafeInteger v))
            \<or> (e = InvalidYear \<and> months inc \<noteq> None))
         \<and> (month_step b inc s = Inr t \<longrightarrow> 1 \<le> month t \<and> month t \<le> 12)"
proof (cases "months inc")
  case None
  then show ?thesis using m by (auto simp: month_step_def)
next
  case (Some v)
  show ?thesis
  proof (cases v)
    case NonIntegral
    with Some show ?thesis by (simp add: month_step_def)
  next
    case (Integral n)
    show ?thesis
    proof (cases "isSafeInteger v")
      case False
      with Some Integral show ?thesis by (auto simp: month_step_def)
    next
      case True
      with Integral have n: "\<bar>n\<bar> \<le> 2 ^ 53 - 1" by simp
      let ?s2 = "s\<lparr>year := js_add (year s) (n sdiv 12),
                    month := js_add (month s) (js_sub n (fl (n sdiv 12 * 12)))\<rparr>"
      let ?s3 = "checkMonthRollover ?s2"
      from month_offset [OF n m] have "- 10 \<le> month ?s2" "month ?s2 \<le> 23" by simp_all
      from rollover_month_range [OF this] have r3: "1 \<le> month ?s3" "month ?s3 \<le> 12" by simp_all
      have ms: "month_step b inc s =
          (case getMaxDayInMonth (month ?s3) (year ?s3) of
             Inl e \<Rightarrow> Inl e
           | Inr md \<Rightarrow> Inr (?s3\<lparr>day := (if b then md else min (day ?s3) md)\<rparr>))"
        using Some Integral True by (simp add: month_step_def Let_def cong: sum.case_cong if_cong)
      show ?thesis
      proof (cases "getMaxDayInMonth (month ?s3) (year ?s3)")
        case (Inl e')
        with r3 have "e' = InvalidYear" by (auto simp: getMaxDayInMonth_def split: if_splits)
        with Inl Some show ?thesis unfolding ms by simp
      next
        case (Inr md)
        with r3 show ?thesis unfolding ms by auto
      qed
    qed
  qed
qed

lemma back_loop_cases:
  "1 \<le> month s \<Longrightarrow> month s \<le> 12 \<Longrightarrow>
     (back_loop s = Inl e \<longrightarrow> e = InvalidYear)
     \<and> (back_loop s = Inr t \<longrightarrow> 1 \<le> month t \<and> month t \<le> 12)"
proof (induction s rule: back_loop.induct)
  case (1 s)
  show ?case
  proof (cases "day s < 1")
    case False
    then have "back_loop s = Inr s" by (intro back_loop_stop) simp
    with "1.prems" show ?thesis by auto
  next
    case True
    define s1 where "s1 = checkMonthRollover (s\<lparr>month := js_sub (month s) 1\<rparr>)"
    have "js_sub (month s) 1 = month s - 1" using "1.prems" by (simp add: js_sub_def fl_id)
    then have "- 10 \<le> month (s\<lparr>month := js_sub (month s) 1\<rparr>)"
      "month (s\<lparr>month := js_sub (month s) 1\<rparr>) \<le> 23" using "1.prems" by simp_all
    from rollover_month_range [OF this] have r1: "1 \<le> month s1" "month s1 \<le> 12"
      by (simp_all add: s1_def)
    have bl: "back_loop s =
        (case getMaxDayInMonth (month s1) (year s1) of
           Inl e \<Rightarrow> Inl e
         | Inr md \<Rightarrow> back_loop (s1\<lparr>day := js_add (day s1) md\<rparr>))"
      using True by (subst back_loop.simps) (simp add: s1_def Let_def cong: sum.case_cong)
    show ?thesis
    proof (cases "getMaxDayInMonth (month s1) (year s1)")
      case (Inl e')
      with r1 have "e' = InvalidYear" by (auto simp: getMaxDayInMonth_def split: if_splits)
      with Inl show ?thesis unfolding bl by simp
    next
      case (Inr md)
      from "1.IH" [OF True s1_def Inr] r1
      have "(back_loop (s1\<lparr>day := js_add (day s1) md\<rparr>) = Inl e \<longrightarrow> e = InvalidYear)
            \<and> (back_loop (s1\<lparr>day := js_add (day s1) md\<rparr>) = Inr t \<longrightarrow> 1 \<le> month t \<and> month t \<le> 12)"
        by simp
      with Inr show ?thesis unfolding bl by simp
    qed
  qed
qed

lemma forward_loop_cases:
  "1 \<le> month s \<Longrightarrow> month s \<le> 12 \<Longrightarrow> forward_loop s = Inl e \<Longrightarrow> e = InvalidYear"
proof (induction s rule: forward_loop.induct)
  case (1 s)
  show ?case
  proof (cases "getMaxDayInMonth (month s) (year s)")
    case (Inl e')
    with "1.prems"(1,2) have "e' = InvalidYear" by (auto simp: getMaxDayInMonth_def split: if_splits)
    moreover from Inl have "forward_loop s = Inl e'" by (subst forward_loop.simps) simp
    ultimately show ?thesis using "1.prems"(3) by simp
  next
    case (Inr md)
    from getMax_in_calendar [OF Inr] have c: "in_calendar s" and md: "md = month_days (month s) (year s)"
      by simp_all
    show ?thesis
    proof (cases "day s \<le> md")
      case True
      with forward_loop_stop [OF c] md "1.prems"(3) show ?thesis by simp
    next
      case False
      let ?s1 = "checkMonthRollover (s\<lparr>day := js_sub (day s) md, month := js_add (month s) 1\<rparr>)"
      from forward_move [OF c, of "js_sub (day s) md"]
      have r1: "1 \<le> month ?s1" "month ?s1 \<le> 12" by simp_all
      have "forward_loop ?s1 = Inl e"
        using forward_loop_go [OF c] False md "1.prems"(3) by simp
      from "1.IH" [OF Inr False r1 this] show ?thesis .
    qed
  qed
qed

lemma day_step_cases:
  assumes m: "1 \<le> month s" "month s \<le> 12" and e: "day_step inc s = Inl e"
  shows "(e = NonIntegerDelta \<and> (\<exists>v. days inc = Some v \<and> \<not> isSafeInteger v))
         \<or> (e = InvalidYear \<and> days inc \<noteq> None)"
proof (cases "days inc")
  case None
  with e show ?thesis by (simp add: day_step_def)
next
  case (Some v)
  show ?thesis
  proof (cases v)
    case NonIntegral
    with Some e show ?thesis by (simp add: day_step_def)
  next
    case (Integral n)
    show ?thesis
    proof (cases "isSafeInteger v")
      case False
      with Some Integral e show ?thesis by (auto simp: day_step_def)
    next
      case True
      let ?sa = "s\<lparr>day := js_add (day s) n\<rparr>"
      have ma: "1 \<le> month ?sa" "month ?sa \<le> 12" using m by simp_all
      from Some Integral True have ds: "day_step inc s =
          (case back_loop ?sa of Inl e \<Rightarrow> Inl e | Inr s1 \<Rightarrow> forward_loop s1)"
        by (simp add: day_step_eq)
      show ?thesis
      proof (cases "back_loop ?sa")
        case (Inl e')
        with back_loop_cases [OF ma, of e'] have "e' = InvalidYear" by simp
        with Inl e Some show ?thesis unfolding ds by simp
      next
        case (Inr s1)
        with back_loop_cases [OF ma, of _ s1] have "1 \<le> month s1" "month s1 \<le> 12" by simp_all
        from forward_loop_cases [OF this] Inr e Some show ?thesis unfolding ds by simp
      qed
    qed
  qed
qed

lemma addDate_Inl:
  assumes a: "addDate str inc = Inl e"
  shows "(e = MalformedDateString \<and> match_iso str = None)
         \<or> (\<exists>s. toDMY str = Inr s
               \<and> ((e = InvalidMonth \<and> (month s < 1 \<or> 12 < month s))
                   \<or> (1 \<le> month s \<and> month s \<le> 12
                       \<and> ((e = InvalidYear \<and> (year s = 0 \<or> months inc \<noteq> None \<or> days inc \<noteq> None))
                           \<or> (e = NonIntegerDelta
                               \<and> (\<exists>v. (years inc = Some v \<or> months inc = Some v \<or> days inc = Some v)
                                        \<and> \<not> isSafeInteger v))))))"
proof (cases "toDMY str")
  case (Inl e0)
  then have "match_iso str = None" "e0 = MalformedDateString"
    by (auto simp: toDMY_def split: option.splits)
  with Inl a show ?thesis by (simp add: addDate_def)
next
  case s0: (Inr s0)
  show ?thesis
  proof (cases "getMaxDayInMonth (month s0) (year s0)")
    case (Inl e0)
    with s0 a have e: "e = e0" by (simp add: addDate_def)
    show ?thesis
    proof (cases "month s0 < 1 \<or> 12 < month s0")
      case True
      with Inl have "e0 = InvalidMonth" by (auto simp: getMaxDayInMonth_def)
      with True s0 e show ?thesis by simp
    next
      case False
      with Inl have "e0 = InvalidYear" "year s0 < 1 \<or> 9999 < year s0"
        by (auto simp: getMaxDayInMonth_def split: if_splits)
      with toDMY_range [OF s0] have "e0 = InvalidYear" "year s0 = 0" by simp_all
      with False s0 e show ?thesis by simp
    qed
  next
    case g: (Inr md0)
    from getMax_Inr [OF g] have m0: "1 \<le> month s0" "month s0 \<le> 12" by simp_all
    show ?thesis
    proof (cases "year_step inc s0")
      case (Inl e1)
      with s0 g a have "e = e1" by (simp add: addDate_def)
      with year_step_cases [of inc s0 e1] Inl s0 m0 show ?thesis by auto
    next
      case s1: (Inr s1)
      with year_step_cases [of inc s0 _ s1] m0 have m1: "1 \<le> month s1" "month s1 \<le> 12" by simp_all
      show ?thesis
      proof (cases "month_step (day s0 = md0) inc s1")
        case (Inl e2)
        with s0 g s1 a have "e = e2" by (simp add: addDate_def)
        with month_step_cases [OF m1, of "day s0 = md0" inc e2] Inl s0 m0 show ?thesis by auto
      next
        case s2: (Inr s2)
        with month_step_cases [OF m1, of "day s0 = md0" inc _ s2]
        have m2: "1 \<le> month s2" "month s2 \<le> 12" by simp_all
        show ?thesis
        proof (cases "day_step inc s2")
          case (Inl e3)
          with s0 g s1 s2 a have "e = e3" by (simp add: addDate_def)
          with day_step_cases [OF m2 Inl] s0 m0 show ?thesis by auto
        next
          case (Inr s3)
          with s0 g s1 s2 a show ?thesis by (simp add: addDate_def)
        qed
      qed
    qed
  qed
qed

text \<open>
  C2, as the specification states it: the engine never fails with \<open>InvalidMonth\<close> or
  \<open>InvalidYear\<close>. It does, on a string that matches the pattern with the month 13 or the
  year 0000, and on an integer delta that carries the date past the year 9999.
\<close>

theorem addDate_raises_lookup_errors:
  "addDate ''2023-13-01'' \<lparr>days = None, months = None, years = None\<rparr> = Inl InvalidMonth
   \<and> addDate ''9999-12-31'' \<lparr>days = Some (Integral 1), months = None, years = None\<rparr> = Inl InvalidYear
   \<and> addDate ''0000-01-01'' \<lparr>days = None, months = None, years = None\<rparr> = Inl InvalidYear"
  by code_simp

text \<open>
  C2, amended: \<open>addDate\<close> returns a string or fails with one of the four errors. It
  fails with \<open>MalformedDateString\<close> exactly when the string does not match the pattern,
  and with \<open>InvalidMonth\<close> exactly when the string matches and its month field is
  outside 1 to 12. It fails with \<open>NonIntegerDelta\<close> only when a field of the delta is a
  number that is no safe integer, and with \<open>InvalidYear\<close> only on a matching string with
  a month in 1 to 12 whose year field is 0000 or whose delta has a months or a days
  field.
\<close>

theorem addDate_failure_taxonomy:
  "(addDate str inc = Inl MalformedDateString \<longleftrightarrow> match_iso str = None)
   \<and> (addDate str inc = Inl InvalidMonth
        \<longleftrightarrow> (\<exists>s. toDMY str = Inr s \<and> (month s < 1 \<or> 12 < month s)))
   \<and> (addDate str inc = Inl NonIntegerDelta
        \<longrightarrow> (\<exists>v. (years inc = Some v \<or> months inc = Some v \<or> days inc = Some v) \<and> \<not> isSafeInteger v))
   \<and> (addDate str inc = Inl InvalidYear
        \<longrightarrow> (\<exists>s. toDMY str = Inr s \<and> 1 \<le> month s \<and> month s \<le> 12
                 \<and> (year s = 0 \<or> months inc \<noteq> None \<or> days inc \<noteq> None)))"
proof (intro conjI iffI impI)
  assume "addDate str inc = Inl MalformedDateString"
  from addDate_Inl [OF this] show "match_iso str = None" by auto
next
  assume "match_iso str = None"
  then show "addDate str inc = Inl MalformedDateString" by (simp add: addDate_def toDMY_def)
next
  assume "addDate str inc = Inl InvalidMonth"
  from addDate_Inl [OF this] show "\<exists>s. toDMY str = Inr s \<and> (month s < 1 \<or> 12 < month s)" by auto
next
  assume "\<exists>s. toDMY str = Inr s \<and> (month s < 1 \<or> 12 < month s)"
  then obtain s where "toDMY str = Inr s" "month s < 1 \<or> 12 < month s" by blast
  then show "addDate str inc = Inl InvalidMonth"
    by (auto simp: addDate_def getMaxDayInMonth_def)
next
  assume "addDate str inc = Inl NonIntegerDelta"
  from addDate_Inl [OF this]
  show "\<exists>v. (years inc = Some v \<or> months inc = Some v \<or> days inc = Some v) \<and> \<not> isSafeInteger v"
    by auto
next
  assume "addDate str inc = Inl InvalidYear"
  from addDate_Inl [OF this]
  show "\<exists>s. toDMY str = Inr s \<and> 1 \<le> month s \<and> month s \<le> 12
           \<and> (year s = 0 \<or> months inc \<noteq> None \<or> days inc \<noteq> None)"
    by auto
qed

theorem addDate_failure_taxonomy_witness:
  "match_iso ''2023/02/14'' = None
   \<and> addDate ''2023/02/14'' \<lparr>days = None, months = None, years = None\<rparr> = Inl MalformedDateString
   \<and> toDMY ''2023-00-14'' = Inr \<lparr>year = 2023, month = 0, day = 14\<rparr>
   \<and> addDate ''2023-00-14'' \<lparr>days = Some (Integral 1), months = None, years = None\<rparr> = Inl InvalidMonth
   \<and> addDate ''2023-02-14'' \<lparr>days = Some NonIntegral, months = None, years = None\<rparr> = Inl NonIntegerDelta
   \<and> addDate ''0001-01-01'' \<lparr>days = Some (Integral (- 1)), months = None, years = None\<rparr> = Inl InvalidYear"
proof -
  have m: "match_iso ''2023/02/14'' = None" by code_simp
  have t: "toDMY ''2023-00-14'' = Inr \<lparr>year = 2023, month = 0, day = 14\<rparr>" by code_simp
  have n: "addDate ''2023-02-14'' \<lparr>days = Some NonIntegral, months = None, years = None\<rparr> = Inl NonIntegerDelta"
    by code_simp
  have y: "addDate ''0001-01-01'' \<lparr>days = Some (Integral (- 1)), months = None, years = None\<rparr> = Inl InvalidYear"
    by code_simp
  from addDate_failure_taxonomy [of "''2023/02/14''" "\<lparr>days = None, months = None, years = None\<rparr>"] m
  have a: "addDate ''2023/02/14'' \<lparr>days = None, months = None, years = None\<rparr> = Inl MalformedDateString"
    by blast
  from addDate_failure_taxonomy [of "''2023-00-14''" "\<lparr>days = Some (Integral 1), months = None, years = None\<rparr>"] t
  have b: "addDate ''2023-00-14'' \<lparr>days = Some (Integral 1), months = None, years = None\<rparr> = Inl InvalidMonth"
    by auto
  from m a t b n y show ?thesis by blast
qed

section \<open>The conversions from a platform date\<close>

text \<open>
  C9. \<open>fromLocalDate\<close> encodes the weekday \<open>getDay\<close>, the month \<open>getMonth + 1\<close> and the
  year \<open>getFullYear\<close>; the string decodes to these three when the year has four digits.
  On Friday 31 May 2013 it returns \<open>'2013-05-05'\<close>: the day field is the weekday 5, not
  the day of the month 31.
\<close>

theorem fromLocalDate_weekday:
  "(platform_Date d \<longrightarrow>
      fromLocalDate d = buildIsoDateString (getDay d) (getMonth d + 1) (getFullYear d))
   \<and> (platform_Date d \<and> 0 \<le> getFullYear d \<and> getFullYear d \<le> 9999 \<longrightarrow>
      toDMY (fromLocalDate d) = Inr \<lparr>year = getFullYear d, month = getMonth d + 1, day = getDay d\<rparr>)
   \<and> platform_Date friday_31_may_2013
   \<and> fromLocalDate friday_31_may_2013 = ''2013-05-05''
   \<and> (\<exists>t. toDMY (fromLocalDate friday_31_may_2013) = Inr t \<and> day t \<noteq> getDate friday_31_may_2013)"
proof -
  have e: "fromLocalDate d = buildIsoDateString (getDay d) (getMonth d + 1) (getFullYear d)"
    if "platform_Date d" for d
    using that by (simp add: fromLocalDate_def platform_Date_def js_add_def fl_id)
  have t: "toDMY (fromLocalDate d) = Inr \<lparr>year = getFullYear d, month = getMonth d + 1, day = getDay d\<rparr>"
    if "platform_Date d" "0 \<le> getFullYear d" "getFullYear d \<le> 9999" for d
    unfolding e [OF that(1)] using that by (intro toDMY_build) (simp_all add: platform_Date_def)
  have p: "platform_Date friday_31_may_2013"
    by (simp add: platform_Date_def friday_31_may_2013_def)
  have f: "fromLocalDate friday_31_may_2013 = ''2013-05-05''"
    by code_simp
  have "toDMY (fromLocalDate friday_31_may_2013) = Inr \<lparr>year = 2013, month = 5, day = 5\<rparr>"
    using t [OF p] by (simp add: friday_31_may_2013_def)
  then have "\<exists>t. toDMY (fromLocalDate friday_31_may_2013) = Inr t \<and> day t \<noteq> getDate friday_31_may_2013"
    by (simp add: friday_31_may_2013_def)
  with e t p f show ?thesis by blast
qed

theorem fromLocalDate_weekday_witness:
  "platform_Date sunday_30_june_2013
   \<and> fromLocalDate sunday_30_june_2013 = buildIsoDateString 0 6 2013
   \<and> toDMY (fromLocalDate sunday_30_june_2013) = Inr \<lparr>year = 2013, month = 6, day = 0\<rparr>"
proof -
  have p: "platform_Date sunday_30_june_2013"
    by (simp add: platform_Date_def sunday_30_june_2013_def)
  have v: "getDay sunday_30_june_2013 = 0" "getMonth sunday_30_june_2013 = 5"
    "getFullYear sunday_30_june_2013 = 2013"
    by (simp_all add: sunday_30_june_2013_def)
  have y: "0 \<le> getFullYear sunday_30_june_2013 \<and> getFullYear sunday_30_june_2013 \<le> 9999"
    by (simp add: v)
  from p y fromLocalDate_weekday [of sunday_30_june_2013]
  have "fromLocalDate sunday_30_june_2013
        = buildIsoDateString (getDay sunday_30_june_2013) (getMonth sunday_30_june_2013 + 1)
            (getFullYear sunday_30_june_2013)"
    and "toDMY (fromLocalDate sunday_30_june_2013)
        = Inr \<lparr>year = getFullYear sunday_30_june_2013, month = getMonth sunday_30_june_2013 + 1,
               day = getDay sunday_30_june_2013\<rparr>"
    by blast+
  then have a: "fromLocalDate sunday_30_june_2013 = buildIsoDateString 0 6 2013"
    and b: "toDMY (fromLocalDate sunday_30_june_2013) = Inr \<lparr>year = 2013, month = 6, day = 0\<rparr>"
    unfolding v by simp_all
  from p a b show ?thesis by blast
qed

text \<open>
  C10. \<open>fromUTCDate\<close> encodes the UTC weekday \<open>getUTCDay\<close>, the month \<open>getUTCMonth + 1\<close>
  and the year \<open>getUTCFullYear\<close>. On Sunday 30 June 2013 it returns \<open>'2013-06-00'\<close>: the
  day field is the weekday 0, not the day of the month 30.
\<close>

theorem fromUTCDate_weekday:
  "(platform_Date d \<longrightarrow>
      fromUTCDate d = buildIsoDateString (getUTCDay d) (getUTCMonth d + 1) (getUTCFullYear d))
   \<and> (platform_Date d \<and> 0 \<le> getUTCFullYear d \<and> getUTCFullYear d \<le> 9999 \<longrightarrow>
      toDMY (fromUTCDate d)
        = Inr \<lparr>year = getUTCFullYear d, month = getUTCMonth d + 1, day = getUTCDay d\<rparr>)
   \<and> platform_Date sunday_30_june_2013
   \<and> fromUTCDate sunday_30_june_2013 = ''2013-06-00''
   \<and> (\<exists>t. toDMY (fromUTCDate sunday_30_june_2013) = Inr t \<and> day t \<noteq> getUTCDate sunday_30_june_2013)"
proof -
  have e: "fromUTCDate d = buildIsoDateString (getUTCDay d) (getUTCMonth d + 1) (getUTCFullYear d)"
    if "platform_Date d" for d
    using that by (simp add: fromUTCDate_def platform_Date_def js_add_def fl_id)
  have t: "toDMY (fromUTCDate d)
           = Inr \<lparr>year = getUTCFullYear d, month = getUTCMonth d + 1, day = getUTCDay d\<rparr>"
    if "platform_Date d" "0 \<le> getUTCFullYear d" "getUTCFullYear d \<le> 9999" for d
    unfolding e [OF that(1)] using that by (intro toDMY_build) (simp_all add: platform_Date_def)
  have p: "platform_Date sunday_30_june_2013"
    by (simp add: platform_Date_def sunday_30_june_2013_def)
  have f: "fromUTCDate sunday_30_june_2013 = ''2013-06-00''"
    by code_simp
  have "toDMY (fromUTCDate sunday_30_june_2013) = Inr \<lparr>year = 2013, month = 6, day = 0\<rparr>"
    using t [OF p] by (simp add: sunday_30_june_2013_def)
  then have "\<exists>t. toDMY (fromUTCDate sunday_30_june_2013) = Inr t \<and> day t \<noteq> getUTCDate sunday_30_june_2013"
    by (simp add: sunday_30_june_2013_def)
  with e t p f show ?thesis by blast
qed

theorem fromUTCDate_weekday_witness:
  "platform_Date friday_31_may_2013
   \<and> fromUTCDate friday_31_may_2013 = buildIsoDateString 5 5 2013
   \<and> toDMY (fromUTCDate friday_31_may_2013) = Inr \<lparr>year = 2013, month = 5, day = 5\<rparr>"
proof -
  have p: "platform_Date friday_31_may_2013"
    by (simp add: platform_Date_def friday_31_may_2013_def)
  have v: "getUTCDay friday_31_may_2013 = 5" "getUTCMonth friday_31_may_2013 = 4"
    "getUTCFullYear friday_31_may_2013 = 2013"
    by (simp_all add: friday_31_may_2013_def)
  have y: "0 \<le> getUTCFullYear friday_31_may_2013 \<and> getUTCFullYear friday_31_may_2013 \<le> 9999"
    by (simp add: v)
  from p y fromUTCDate_weekday [of friday_31_may_2013]
  have "fromUTCDate friday_31_may_2013
        = buildIsoDateString (getUTCDay friday_31_may_2013) (getUTCMonth friday_31_may_2013 + 1)
            (getUTCFullYear friday_31_may_2013)"
    and "toDMY (fromUTCDate friday_31_may_2013)
        = Inr \<lparr>year = getUTCFullYear friday_31_may_2013, month = getUTCMonth friday_31_may_2013 + 1,
               day = getUTCDay friday_31_may_2013\<rparr>"
    by blast+
  then have a: "fromUTCDate friday_31_may_2013 = buildIsoDateString 5 5 2013"
    and b: "toDMY (fromUTCDate friday_31_may_2013) = Inr \<lparr>year = 2013, month = 5, day = 5\<rparr>"
    unfolding v by simp_all
  from p a b show ?thesis by blast
qed

end
